theory Spec2Isabelle
  imports Main "HOL-Library.Monad_Syntax"
begin

section \<open>Nodes, pointers and the store\<close>

text \<open>
  Both containers are singly-linked chains of heap nodes. A node pointer
  (\<open>node_ptr\<close>) is either null or the address of a live node; the store is the list
  of all nodes allocated so far, and the address of a node is its index in the store.
  Allocation (\<open>make_shared<node>\<close>, \<open>new node\<close>) appends to the store, so a fresh
  node never aliases an existing one. Both pointer types own what they point to
  (\<open>std::shared_ptr\<close>, the intrusive \<open>atomic_ref_ptr\<close>), so a non-null pointer always
  designates an allocated node; the representation predicates below say so
  (\<open>a < length h\<close>).

  \<open>struct node { T value_; node_ptr next_; }\<close> is the same in both classes up
  to the type of the link. The members \<open>value_\<close>, \<open>next_\<close>, \<open>head_\<close> and \<open>tail_\<close>
  are written \<open>node_value\<close>, \<open>node_next\<close>, \<open>gl_head\<close>/\<open>lf_head\<close> and \<open>gl_tail\<close>;
  member functions carry the prefix \<open>gl_\<close> or \<open>lf_\<close> of their class.
\<close>

type_synonym addr = nat

record ('a, 'l) node =
  node_value :: 'a
  node_next :: 'l

text \<open>
  A failing \<open>assert\<close> aborts the program; it is the error result \<open>Assertion_failed\<close>
  of the member function (assertions are taken as enabled; without them the guarded
  dereferences of a null pointer would be undefined behaviour). A loop of the source is a
  recursive function into \<open>option\<close>, where \<open>None\<close> stands for a call that never returns.
  Counters of type \<open>size_t\<close> are natural numbers: they count distinct live nodes and
  cannot wrap around.
\<close>

datatype error = Assertion_failed | No_such_member

subsection \<open>Paths through the store\<close>

text \<open>
  \<open>path nxt n p as q\<close>: following the successor function \<open>nxt\<close> from pointer \<open>p\<close>
  visits exactly the allocated nodes \<open>as\<close> (addresses below \<open>n\<close>), in order, and
  arrives at pointer \<open>q\<close>. A chain is a path that ends in the null pointer.
\<close>

fun path :: "(addr \<Rightarrow> addr option) \<Rightarrow> nat \<Rightarrow> addr option \<Rightarrow> addr list \<Rightarrow> addr option \<Rightarrow> bool" where
  "path nxt n p [] q = (p = q)"
| "path nxt n p (a # as) q = (p = Some a \<and> a < n \<and> path nxt n (nxt a) as q)"

definition chain :: "(addr \<Rightarrow> addr option) \<Rightarrow> nat \<Rightarrow> addr option \<Rightarrow> addr list \<Rightarrow> bool" where
  "chain nxt n p as = path nxt n p as None"

definition last_ptr :: "addr list \<Rightarrow> addr option" where
  "last_ptr as = (if as = [] then None else Some (last as))"

section \<open>global\_lock\_impl\<close>

text \<open>
  The mutex serialises every member function; a sequential model runs each member
  function from start to end on the state below.
\<close>

type_synonym 'a gl_node = "('a, addr option) node"

record 'a global_lock_impl =
  gl_store :: "'a gl_node list"
  gl_head :: "addr option"
  gl_tail :: "addr option"

text \<open>\<open>global_lock_impl() : mutex_(), head_(), tail_() {}\<close>\<close>

definition gl_init :: "'a global_lock_impl" where
  "gl_init = \<lparr>gl_store = [], gl_head = None, gl_tail = None\<rparr>"

text \<open>\<open>size()\<close>: \<open>while (cur) { ret++; cur = cur->next_; }\<close>\<close>

partial_function (option) gl_size_loop :: "'a gl_node list \<Rightarrow> addr option \<Rightarrow> nat \<Rightarrow> nat option" where
  "gl_size_loop h cur ret =
     (case cur of
        None \<Rightarrow> Some ret
      | Some a \<Rightarrow> gl_size_loop h (node_next (h ! a)) (ret + 1))"

declare gl_size_loop.simps [code]

definition gl_size :: "'a global_lock_impl \<Rightarrow> nat option" where
  "gl_size s = gl_size_loop (gl_store s) (gl_head s) 0"

text \<open>\<open>front()\<close>: \<open>assert(head_); return head_->value_;\<close>\<close>

definition gl_front :: "'a global_lock_impl \<Rightarrow> error + 'a" where
  "gl_front s =
     (case gl_head s of
        None \<Rightarrow> Inl Assertion_failed
      | Some a \<Rightarrow> Inr (node_value (gl_store s ! a)))"

text \<open>\<open>back()\<close>: \<open>assert(tail_); assert(!tail_->next_); return tail_->value_;\<close>\<close>

definition gl_back :: "'a global_lock_impl \<Rightarrow> error + 'a" where
  "gl_back s =
     (case gl_tail s of
        None \<Rightarrow> Inl Assertion_failed
      | Some t \<Rightarrow>
          if node_next (gl_store s ! t) \<noteq> None then Inl Assertion_failed
          else Inr (node_value (gl_store s ! t)))"

text \<open>
  \<open>pop_front()\<close>: \<open>assert(head_); next = head_->next_; head_ = next;
  if (!head_) tail_.reset();\<close>
\<close>

definition gl_pop_front :: "'a global_lock_impl \<Rightarrow> error + 'a global_lock_impl" where
  "gl_pop_front s =
     (case gl_head s of
        None \<Rightarrow> Inl Assertion_failed
      | Some a \<Rightarrow>
          let nxt = node_next (gl_store s ! a);
              s1 = s\<lparr>gl_head := nxt\<rparr>
          in Inr (if gl_head s1 = None then s1\<lparr>gl_tail := None\<rparr> else s1))"

text \<open>
  \<open>push_back(val)\<close>: allocate \<open>n = node(val, nullptr)\<close>; if \<open>!tail_\<close> then
  \<open>assert(!head_); head_ = tail_ = n\<close>, else \<open>tail_->next_ = n; tail_ = n\<close>.
\<close>

definition gl_push_back :: "'a \<Rightarrow> 'a global_lock_impl \<Rightarrow> error + 'a global_lock_impl" where
  "gl_push_back val s =
     (let n = length (gl_store s);
          h = gl_store s @ [\<lparr>node_value = val, node_next = None\<rparr>]
      in case gl_tail s of
           None \<Rightarrow>
             if gl_head s \<noteq> None then Inl Assertion_failed
             else Inr (s\<lparr>gl_store := h, gl_head := Some n, gl_tail := Some n\<rparr>)
         | Some t \<Rightarrow>
             Inr (s\<lparr>gl_store := h[t := (h ! t)\<lparr>node_next := Some n\<rparr>], gl_tail := Some n\<rparr>))"

text \<open>
  \<open>remove(val)\<close> walks the list with \<open>p\<close>, the node under inspection, \<open>pp\<close>, the
  address of the link that points to \<open>p\<close> (either the member \<open>head_\<close> or the
  \<open>next_\<close> field of a node), and \<open>prev\<close>, the last node that was kept.
\<close>

datatype link = Head_link | Next_link addr

definition read_link :: "link \<Rightarrow> 'a global_lock_impl \<Rightarrow> addr option" where
  "read_link pp s = (case pp of Head_link \<Rightarrow> gl_head s | Next_link a \<Rightarrow> node_next (gl_store s ! a))"

definition write_link :: "link \<Rightarrow> addr option \<Rightarrow> 'a global_lock_impl \<Rightarrow> 'a global_lock_impl" where
  "write_link pp v s =
     (case pp of
        Head_link \<Rightarrow> s\<lparr>gl_head := v\<rparr>
      | Next_link a \<Rightarrow> s\<lparr>gl_store := (gl_store s)[a := (gl_store s ! a)\<lparr>node_next := v\<rparr>]\<rparr>)"

partial_function (option) gl_remove_loop ::
  "'a \<Rightarrow> 'a global_lock_impl \<Rightarrow> addr option \<Rightarrow> addr option \<Rightarrow> link \<Rightarrow> 'a global_lock_impl option" where
  "gl_remove_loop val s prev p pp =
     (case p of
        None \<Rightarrow> Some s
      | Some a \<Rightarrow>
          if node_value (gl_store s ! a) = val then
            let s1 = write_link pp (node_next (gl_store s ! a)) s;
                p' = read_link pp s1;
                s2 = (if read_link pp s1 = None then s1\<lparr>gl_tail := prev\<rparr> else s1)
            in gl_remove_loop val s2 prev p' pp
          else
            gl_remove_loop val s (Some a) (node_next (gl_store s ! a)) (Next_link a))"

declare gl_remove_loop.simps [code]

definition gl_remove :: "'a \<Rightarrow> 'a global_lock_impl \<Rightarrow> 'a global_lock_impl option" where
  "gl_remove val s = gl_remove_loop val s None (gl_head s) Head_link"

text \<open>
  \<open>try_pop_front()\<close>: on an empty list \<open>assert(!tail_)\<close> and return
  \<open>(false, T())\<close>; otherwise unlink the first node and return \<open>(true, value)\<close>.
  The value-initialised \<open>T()\<close> is the parameter \<open>dflt\<close>.
\<close>

definition gl_try_pop_front :: "'a \<Rightarrow> 'a global_lock_impl \<Rightarrow> error + (bool \<times> 'a) \<times> 'a global_lock_impl" where
  "gl_try_pop_front dflt s =
     (case gl_head s of
        None \<Rightarrow>
          if gl_tail s \<noteq> None then Inl Assertion_failed
          else Inr ((False, dflt), s)
      | Some a \<Rightarrow>
          let t = node_value (gl_store s ! a);
              nxt = node_next (gl_store s ! a);
              s1 = s\<lparr>gl_head := nxt\<rparr>;
              s2 = (if gl_head s1 = None then s1\<lparr>gl_tail := None\<rparr> else s1)
          in Inr ((True, t), s2))"

text \<open>
  Forward iteration \<open>for (it = begin(); it != end(); ++it) yield *it\<close>:
  \<open>begin()\<close> is an iterator at \<open>head_\<close>, \<open>end()\<close> the null iterator, \<open>*it\<close> reads
  \<open>node_->value_\<close> and \<open>++it\<close> moves to \<open>node_->next_\<close>.
\<close>

partial_function (option) gl_iterate_loop :: "'a gl_node list \<Rightarrow> addr option \<Rightarrow> 'a list \<Rightarrow> 'a list option" where
  "gl_iterate_loop h node acc =
     (case node of
        None \<Rightarrow> Some acc
      | Some a \<Rightarrow> gl_iterate_loop h (node_next (h ! a)) (acc @ [node_value (h ! a)]))"

declare gl_iterate_loop.simps [code]

definition gl_iterate :: "'a global_lock_impl \<Rightarrow> 'a list option" where
  "gl_iterate s = gl_iterate_loop (gl_store s) (gl_head s) []"

text \<open>
  Draining: call \<open>try_pop_front\<close> until it reports \<open>found = false\<close>, collecting the
  values it returned.
\<close>

partial_function (option) gl_drain :: "'a \<Rightarrow> 'a global_lock_impl \<Rightarrow> 'a list \<Rightarrow> (error + 'a list \<times> 'a global_lock_impl) option" where
  "gl_drain dflt s acc =
     (case gl_try_pop_front dflt s of
        Inl e \<Rightarrow> Some (Inl e)
      | Inr ((found, v), s') \<Rightarrow>
          if found then gl_drain dflt s' (acc @ [v]) else Some (Inr (acc, s')))"

declare gl_drain.simps [code]

text \<open>Building: \<open>push_back\<close> each element of a sequence in order.\<close>

fun gl_push_all :: "'a list \<Rightarrow> 'a global_lock_impl \<Rightarrow> error + 'a global_lock_impl" where
  "gl_push_all [] s = Inr s"
| "gl_push_all (v # vs) s =
     (case gl_push_back v s of Inl e \<Rightarrow> Inl e | Inr s' \<Rightarrow> gl_push_all vs s')"

subsection \<open>Representation\<close>

text \<open>
  \<open>gl_list s as\<close>: the nodes reachable from \<open>head_\<close> are exactly \<open>as\<close>, the chain
  ends in null, and \<open>tail_\<close> is null for the empty chain and the last node otherwise.
  \<open>gl_values s as\<close> reads the values stored in these nodes.
\<close>

definition gl_next :: "'a gl_node list \<Rightarrow> addr \<Rightarrow> addr option" where
  "gl_next h a = node_next (h ! a)"

definition gl_list :: "'a global_lock_impl \<Rightarrow> addr list \<Rightarrow> bool" where
  "gl_list s as =
     (chain (gl_next (gl_store s)) (length (gl_store s)) (gl_head s) as \<and> gl_tail s = last_ptr as)"

definition gl_values :: "'a global_lock_impl \<Rightarrow> addr list \<Rightarrow> 'a list" where
  "gl_values s as = map (\<lambda>a. node_value (gl_store s ! a)) as"

section \<open>lock\_free\_impl\<close>

subsection \<open>The markable atomic reference\<close>

text \<open>
  Modelled from the spec: \<open>atomic_ref_ptr\<close>, the markable atomic reference of
  \<open>atomic_reference.hpp\<close>, which is not among the sources. A link atomically carries a
  node pointer and a one-bit "logically deleted" flag.

  A local \<open>node_ptr\<close> variable (\<open>p\<close>, \<open>cur\<close>, the iterator's \<open>node_\<close>) is only ever
  copied or assigned, so its mark bit is never set (this is the
  \<open>assert(!p.get_mark())\<close> of \<open>push_back\<close>, "b/c node ptrs don't propagate mark bits");
  it is modelled by the pointer it holds.
\<close>

record atomic_ref_ptr =
  ptr :: "addr option"
  mark_bit :: bool

text \<open>Modelled from the spec: the default-constructed reference \<open>node_ptr()\<close>, null and unmarked.\<close>

definition null_ref :: atomic_ref_ptr where
  "null_ref = \<lparr>ptr = None, mark_bit = False\<rparr>"

text \<open>Modelled from the spec: \<open>get_mark() -> bool\<close> reads the current mark state.\<close>

definition get_mark :: "atomic_ref_ptr \<Rightarrow> bool" where
  "get_mark r = mark_bit r"

text \<open>
  Modelled from the spec: \<open>mark() -> bool\<close> atomically sets the mark bit if unset, and
  returns true iff this call performed the transition (false if already marked).
\<close>

definition mark :: "atomic_ref_ptr \<Rightarrow> bool \<times> atomic_ref_ptr" where
  "mark r = (\<not> mark_bit r, r\<lparr>mark_bit := True\<rparr>)"

text \<open>
  Modelled from the spec: \<open>compare_exchange(expected_ref, desired_ref) -> bool\<close> succeeds
  only if the current (ref, mark) equals (expected_ref, unmarked); on success it installs
  desired_ref with the mark unset; it never carries over a mark bit from either operand.
\<close>

definition compare_exchange_strong ::
  "atomic_ref_ptr \<Rightarrow> addr option \<Rightarrow> addr option \<Rightarrow> bool \<times> atomic_ref_ptr" where
  "compare_exchange_strong r expected desired =
     (if ptr r = expected \<and> \<not> mark_bit r then (True, \<lparr>ptr = desired, mark_bit = False\<rparr>)
      else (False, r))"

text \<open>
  Modelled from the spec: plain assignment copies the referenced node identity only,
  dropping any mark bit ("semantics of assign() do not copy marked bits" in
  \<open>pop_front\<close>). The only link that is ever assigned to is the sentinel's, which is
  unmarked before the assignment as well.
\<close>

definition assign :: "addr option \<Rightarrow> atomic_ref_ptr" where
  "assign p = \<lparr>ptr = p, mark_bit = False\<rparr>"

subsection \<open>The list\<close>

type_synonym 'a lf_node = "('a, atomic_ref_ptr) node"

text \<open>\<open>node::is_marked()\<close>: \<open>return next_.get_mark();\<close>\<close>

definition is_marked :: "'a lf_node \<Rightarrow> bool" where
  "is_marked n = get_mark (node_next n)"

text \<open>
  \<open>head_\<close> points to the sentinel. It is set by the constructor and no member
  function assigns to it, so it is never null.
\<close>

record 'a lock_free_impl =
  lf_store :: "'a lf_node list"
  lf_head :: addr

text \<open>
  \<open>lock_free_impl() : head_(new node) {}\<close> with \<open>node() : value_(), next_() {}\<close>;
  the value-initialised \<open>T()\<close> is the parameter \<open>dflt\<close>.
\<close>

definition lf_init :: "'a \<Rightarrow> 'a lock_free_impl" where
  "lf_init dflt = \<lparr>lf_store = [\<lparr>node_value = dflt, node_next = null_ref\<rparr>], lf_head = 0\<rparr>"

text \<open>
  The atomic accesses to the link of a node in the store: \<open>a->next_.mark()\<close>,
  \<open>a->next_.compare_exchange_strong(expected, desired)\<close> and \<open>a->next_ = p\<close>.
\<close>

definition set_next :: "'a lf_node list \<Rightarrow> addr \<Rightarrow> atomic_ref_ptr \<Rightarrow> 'a lf_node list" where
  "set_next h a l = h[a := (h ! a)\<lparr>node_next := l\<rparr>]"

definition mark_link :: "'a lf_node list \<Rightarrow> addr \<Rightarrow> bool \<times> 'a lf_node list" where
  "mark_link h a = (let (ok, l) = mark (node_next (h ! a)) in (ok, set_next h a l))"

definition cas_link ::
  "'a lf_node list \<Rightarrow> addr \<Rightarrow> addr option \<Rightarrow> addr option \<Rightarrow> bool \<times> 'a lf_node list" where
  "cas_link h a expected desired =
     (let (ok, l) = compare_exchange_strong (node_next (h ! a)) expected desired
      in (ok, set_next h a l))"

definition assign_link :: "'a lf_node list \<Rightarrow> addr \<Rightarrow> addr option \<Rightarrow> 'a lf_node list" where
  "assign_link h a p = set_next h a (assign p)"

text \<open>
  \<open>size()\<close>: \<open>assert(!head_->is_marked())\<close>, then
  \<open>while (cur) { if (!cur->is_marked()); ret++; cur = cur->next_; }\<close>.
  The \<open>if\<close> statement ends at the semicolon that follows its condition: its body is
  the empty statement, and \<open>ret++\<close> is the next statement of the loop body.
\<close>

partial_function (option) lf_size_loop :: "'a lf_node list \<Rightarrow> addr option \<Rightarrow> nat \<Rightarrow> nat option" where
  "lf_size_loop h cur ret =
     (case cur of
        None \<Rightarrow> Some ret
      | Some a \<Rightarrow>
          let u = (if \<not> is_marked (h ! a) then () else ());
              ret' = ret + 1
          in lf_size_loop h (ptr (node_next (h ! a))) ret')"

declare lf_size_loop.simps [code]

definition lf_size :: "'a lock_free_impl \<Rightarrow> (error + nat) option" where
  "lf_size s =
     (let h = lf_store s in
      if is_marked (h ! lf_head s) then Some (Inl Assertion_failed)
      else map_option Inr (lf_size_loop h (ptr (node_next (h ! lf_head s))) 0))"

text \<open>
  \<open>front()\<close>: \<open>assert(!head_->is_marked()); p = head_->next_; assert(p);\<close> then
  read the value between two checks of \<open>p->is_marked()\<close>, each of which jumps back to
  \<open>retry\<close> when the node is marked. The two overloads have the same body.
\<close>

partial_function (option) lf_front :: "'a lock_free_impl \<Rightarrow> (error + 'a) option" where
  "lf_front s =
     (let h = lf_store s in
      if is_marked (h ! lf_head s) then Some (Inl Assertion_failed)
      else case ptr (node_next (h ! lf_head s)) of
        None \<Rightarrow> Some (Inl Assertion_failed)
      | Some p \<Rightarrow>
          if is_marked (h ! p) then lf_front s
          else let ref = node_value (h ! p)
               in if is_marked (h ! p) then lf_front s else Some (Inr ref))"

declare lf_front.simps [code]

text \<open>
  \<open>pop_front()\<close>: \<open>assert(!head_->is_marked()); prev = head_; cur = prev->next_;
  assert(cur); if (!cur->next_.mark()) goto retry; prev->next_ = cur->next_;\<close>
  (\<open>scoper.release\<close> is a no-op of \<open>nop_scoper\<close>).
\<close>

partial_function (option) lf_pop_front :: "'a lock_free_impl \<Rightarrow> (error + 'a lock_free_impl) option" where
  "lf_pop_front s =
     (let h = lf_store s; prev = lf_head s in
      if is_marked (h ! lf_head s) then Some (Inl Assertion_failed)
      else case ptr (node_next (h ! prev)) of
        None \<Rightarrow> Some (Inl Assertion_failed)
      | Some cur \<Rightarrow>
          let (ok, h1) = mark_link h cur in
          if \<not> ok then lf_pop_front (s\<lparr>lf_store := h1\<rparr>)
          else Some (Inr (s\<lparr>lf_store := assign_link h1 prev (ptr (node_next (h1 ! cur)))\<rparr>)))"

declare lf_pop_front.simps [code]

text \<open>
  \<open>push_back(val)\<close>: \<open>assert(!head_->is_marked())\<close>; walk
  \<open>for (p = head_->next_, pp = &head_->next_; p; pp = &p->next_, p = p->next_);\<close>
  to the last link, allocate \<open>n = node(val, node_ptr())\<close> and
  \<open>if (!pp->compare_exchange_strong(p, n)) goto retry;\<close>. The pointer \<open>pp\<close> is
  represented by the node whose \<open>next_\<close> it addresses.
\<close>

partial_function (option) lf_find_last :: "'a lf_node list \<Rightarrow> addr option \<Rightarrow> addr \<Rightarrow> (addr option \<times> addr) option" where
  "lf_find_last h p pp =
     (case p of
        None \<Rightarrow> Some (p, pp)
      | Some a \<Rightarrow> lf_find_last h (ptr (node_next (h ! a))) a)"

declare lf_find_last.simps [code]

partial_function (option) lf_push_back :: "'a \<Rightarrow> 'a lock_free_impl \<Rightarrow> (error + 'a lock_free_impl) option" where
  "lf_push_back val s =
     (let h = lf_store s in
      if is_marked (h ! lf_head s) then Some (Inl Assertion_failed)
      else case lf_find_last h (ptr (node_next (h ! lf_head s))) (lf_head s) of
        None \<Rightarrow> None
      | Some (p, pp) \<Rightarrow>
          let n = length h;
              h1 = h @ [\<lparr>node_value = val, node_next = null_ref\<rparr>];
              (ok, h2) = cas_link h1 pp p (Some n)
          in if \<not> ok then lf_push_back val (s\<lparr>lf_store := h2\<rparr>)
             else Some (Inr (s\<lparr>lf_store := h2\<rparr>)))"

declare lf_push_back.simps [code]

text \<open>
  \<open>remove(val)\<close>: for a node \<open>p\<close> with the value, \<open>if (p->next_.mark())\<close> then
  \<open>pp->compare_exchange_strong(p, p->next_)\<close>, whose result is ignored; in any case
  \<open>p = p->next_\<close> with \<open>pp\<close> unchanged. For any other node
  \<open>pp = &p->next_; p = p->next_\<close>.
\<close>

partial_function (option) lf_remove_loop :: "'a \<Rightarrow> 'a lf_node list \<Rightarrow> addr option \<Rightarrow> addr \<Rightarrow> 'a lf_node list option" where
  "lf_remove_loop val h p pp =
     (case p of
        None \<Rightarrow> Some h
      | Some a \<Rightarrow>
          if node_value (h ! a) = val then
            let (ok, h1) = mark_link h a;
                h2 = (if ok then snd (cas_link h1 pp (Some a) (ptr (node_next (h1 ! a)))) else h1)
            in lf_remove_loop val h2 (ptr (node_next (h2 ! a))) pp
          else
            lf_remove_loop val h (ptr (node_next (h ! a))) a)"

declare lf_remove_loop.simps [code]

definition lf_remove :: "'a \<Rightarrow> 'a lock_free_impl \<Rightarrow> 'a lock_free_impl option" where
  "lf_remove val s =
     map_option (\<lambda>h. s\<lparr>lf_store := h\<rparr>)
       (lf_remove_loop val (lf_store s) (ptr (node_next (lf_store s ! lf_head s))) (lf_head s))"

text \<open>
  Forward iteration \<open>for (it = begin(); it != end(); ++it) yield *it\<close>:
  \<open>begin()\<close> is \<open>iterator_(head_->next_)\<close>, \<open>end()\<close> the null iterator, \<open>*it\<close> reads
  \<open>node_->value_\<close>, and \<open>++it\<close> is
  \<open>do { node_ = node_->next_; } while (node_ && node_->is_marked());\<close>.
\<close>

partial_function (option) lf_increment :: "'a lf_node list \<Rightarrow> addr \<Rightarrow> addr option option" where
  "lf_increment h node =
     (case ptr (node_next (h ! node)) of
        None \<Rightarrow> Some None
      | Some b \<Rightarrow> if is_marked (h ! b) then lf_increment h b else Some (Some b))"

declare lf_increment.simps [code]

partial_function (option) lf_iterate_loop :: "'a lf_node list \<Rightarrow> addr option \<Rightarrow> 'a list \<Rightarrow> 'a list option" where
  "lf_iterate_loop h node acc =
     (case node of
        None \<Rightarrow> Some acc
      | Some a \<Rightarrow>
          (case lf_increment h a of
             None \<Rightarrow> None
           | Some node' \<Rightarrow> lf_iterate_loop h node' (acc @ [node_value (h ! a)])))"

declare lf_iterate_loop.simps [code]

definition lf_begin :: "'a lock_free_impl \<Rightarrow> addr option" where
  "lf_begin s = ptr (node_next (lf_store s ! lf_head s))"

definition lf_iterate :: "'a lock_free_impl \<Rightarrow> 'a list option" where
  "lf_iterate s = lf_iterate_loop (lf_store s) (lf_begin s) []"

subsection \<open>Destruction\<close>

text \<open>\<open>node::~node()\<close>: \<open>assert(next_.get_mark());\<close>\<close>

definition node_dtor :: "'a lf_node \<Rightarrow> error + unit" where
  "node_dtor n = (if get_mark (node_next n) then Inr () else Inl Assertion_failed)"

text \<open>
  Modelled from the spec: the reference-counting capability of the reclamation backend
  (\<open>atomic_ref_counted\<close> and the destructor of \<open>atomic_ref_ptr\<close> in
  \<open>atomic_reference.hpp\<close>, which is not among the sources): a node is freed when its
  count reaches zero, and freeing it runs \<open>node::~node\<close> and then releases the node's
  own \<open>next_\<close>.

  \<open>lock_free_impl\<close> declares no destructor, so destroying a list destroys its member
  \<open>head_\<close>, which releases the list's reference to the sentinel. When no iterator is
  alive, every node of the chain is referenced by its predecessor's link only (the
  sentinel by \<open>head_\<close> only), so releasing a pointer destroys the node it points to.
\<close>

partial_function (option) release_chain :: "'a lf_node list \<Rightarrow> addr option \<Rightarrow> (error + unit) option" where
  "release_chain h p =
     (case p of
        None \<Rightarrow> Some (Inr ())
      | Some a \<Rightarrow>
          (case node_dtor (h ! a) of
             Inl e \<Rightarrow> Some (Inl e)
           | Inr u \<Rightarrow> release_chain h (ptr (node_next (h ! a)))))"

declare release_chain.simps [code]

definition lf_destructor :: "'a lock_free_impl \<Rightarrow> (error + unit) option" where
  "lf_destructor s = release_chain (lf_store s) (Some (lf_head s))"

subsection \<open>Representation\<close>

text \<open>
  \<open>lf_list s as\<close>: the nodes physically reachable from the sentinel are exactly \<open>as\<close>,
  marked or not, and the chain ends in null. The logical contents of the list are the
  values of the nodes of the chain that are not marked.
\<close>

definition lf_next :: "'a lf_node list \<Rightarrow> addr \<Rightarrow> addr option" where
  "lf_next h a = ptr (node_next (h ! a))"

definition lf_list :: "'a lock_free_impl \<Rightarrow> addr list \<Rightarrow> bool" where
  "lf_list s as =
     chain (lf_next (lf_store s)) (length (lf_store s)) (Some (lf_head s)) (lf_head s # as)"

definition lf_unmarked :: "'a lock_free_impl \<Rightarrow> addr list \<Rightarrow> addr list" where
  "lf_unmarked s as = filter (\<lambda>a. \<not> is_marked (lf_store s ! a)) as"

definition lf_logical :: "'a lock_free_impl \<Rightarrow> addr list \<Rightarrow> 'a list" where
  "lf_logical s as = map (\<lambda>a. node_value (lf_store s ! a)) (lf_unmarked s as)"

definition lf_sentinel_ok :: "'a lock_free_impl \<Rightarrow> bool" where
  "lf_sentinel_ok s = (\<not> is_marked (lf_store s ! lf_head s))"

section \<open>The container interface\<close>

text \<open>
  The operations of the container interface and what a caller observes of each.
  \<open>global_lock_impl\<close> declares all of them (and \<open>try_pop_front\<close>).
  \<open>lock_free_impl\<close> declares \<open>size\<close>, \<open>front\<close>, \<open>pop_front\<close>, \<open>push_back\<close>,
  \<open>remove\<close>, \<open>begin\<close> and \<open>end\<close>; it has no member \<open>back\<close>, so a call of it is
  rejected, which the dispatcher records as \<open>No_such_member\<close>.
\<close>

datatype 'a operation = Size | Front | Back | Pop_front | Push_back 'a | Remove 'a | Iterate

datatype 'a observation = Count nat | Reference 'a | Done | Sequence "'a list"

fun gl_apply :: "'a operation \<Rightarrow> 'a global_lock_impl \<Rightarrow> (error + 'a observation \<times> 'a global_lock_impl) option" where
  "gl_apply Size s = map_option (\<lambda>n. Inr (Count n, s)) (gl_size s)"
| "gl_apply Front s = Some (map_sum id (\<lambda>v. (Reference v, s)) (gl_front s))"
| "gl_apply Back s = Some (map_sum id (\<lambda>v. (Reference v, s)) (gl_back s))"
| "gl_apply Pop_front s = Some (map_sum id (\<lambda>s'. (Done, s')) (gl_pop_front s))"
| "gl_apply (Push_back v) s = Some (map_sum id (\<lambda>s'. (Done, s')) (gl_push_back v s))"
| "gl_apply (Remove v) s = map_option (\<lambda>s'. Inr (Done, s')) (gl_remove v s)"
| "gl_apply Iterate s = map_option (\<lambda>vs. Inr (Sequence vs, s)) (gl_iterate s)"

fun lf_apply :: "'a operation \<Rightarrow> 'a lock_free_impl \<Rightarrow> (error + 'a observation \<times> 'a lock_free_impl) option" where
  "lf_apply Size s = map_option (map_sum id (\<lambda>n. (Count n, s))) (lf_size s)"
| "lf_apply Front s = map_option (map_sum id (\<lambda>v. (Reference v, s))) (lf_front s)"
| "lf_apply Back s = Some (Inl No_such_member)"
| "lf_apply Pop_front s = map_option (map_sum id (\<lambda>s'. (Done, s'))) (lf_pop_front s)"
| "lf_apply (Push_back v) s = map_option (map_sum id (\<lambda>s'. (Done, s'))) (lf_push_back v s)"
| "lf_apply (Remove v) s = map_option (\<lambda>s'. Inr (Done, s')) (lf_remove v s)"
| "lf_apply Iterate s = map_option (\<lambda>vs. Inr (Sequence vs, s)) (lf_iterate s)"

text \<open>
  A sequential run applies the operations one after the other. It yields the
  observations made, and either the error that stopped it or the final state.
\<close>

fun gl_run :: "'a operation list \<Rightarrow> 'a global_lock_impl \<Rightarrow> ('a observation list \<times> (error + 'a global_lock_impl)) option" where
  "gl_run [] s = Some ([], Inr s)"
| "gl_run (x # xs) s =
     (case gl_apply x s of
        None \<Rightarrow> None
      | Some (Inl e) \<Rightarrow> Some ([], Inl e)
      | Some (Inr (ob, s')) \<Rightarrow> map_option (\<lambda>(obs, r). (ob # obs, r)) (gl_run xs s'))"

fun lf_run :: "'a operation list \<Rightarrow> 'a lock_free_impl \<Rightarrow> ('a observation list \<times> (error + 'a lock_free_impl)) option" where
  "lf_run [] s = Some ([], Inr s)"
| "lf_run (x # xs) s =
     (case lf_apply x s of
        None \<Rightarrow> None
      | Some (Inl e) \<Rightarrow> Some ([], Inl e)
      | Some (Inr (ob, s')) \<Rightarrow> map_option (\<lambda>(obs, r). (ob # obs, r)) (lf_run xs s'))"

text \<open>
  The logical contents of a list, read off the store: the values of the nodes reachable
  from \<open>head_\<close>, and for the lock-free list the values of the reachable nodes after the
  sentinel that are not marked.
\<close>

partial_function (option) gl_contents_loop :: "'a gl_node list \<Rightarrow> addr option \<Rightarrow> 'a list \<Rightarrow> 'a list option" where
  "gl_contents_loop h cur acc =
     (case cur of
        None \<Rightarrow> Some acc
      | Some a \<Rightarrow> gl_contents_loop h (node_next (h ! a)) (acc @ [node_value (h ! a)]))"

declare gl_contents_loop.simps [code]

definition gl_contents :: "'a global_lock_impl \<Rightarrow> 'a list option" where
  "gl_contents s = gl_contents_loop (gl_store s) (gl_head s) []"

partial_function (option) lf_contents_loop :: "'a lf_node list \<Rightarrow> addr option \<Rightarrow> 'a list \<Rightarrow> 'a list option" where
  "lf_contents_loop h cur acc =
     (case cur of
        None \<Rightarrow> Some acc
      | Some a \<Rightarrow>
          lf_contents_loop h (ptr (node_next (h ! a)))
            (if is_marked (h ! a) then acc else acc @ [node_value (h ! a)]))"

declare lf_contents_loop.simps [code]

definition lf_contents :: "'a lock_free_impl \<Rightarrow> 'a list option" where
  "lf_contents s = lf_contents_loop (lf_store s) (ptr (node_next (lf_store s ! lf_head s))) []"

text \<open>
  The outcome of a run from the freshly constructed list: the observations, and the
  error or the logical contents at the end.
\<close>

definition gl_outcome :: "'a operation list \<Rightarrow> ('a observation list \<times> (error + 'a list)) option" where
  "gl_outcome xs =
     (case gl_run xs gl_init of
        None \<Rightarrow> None
      | Some (obs, Inl e) \<Rightarrow> Some (obs, Inl e)
      | Some (obs, Inr s) \<Rightarrow> map_option (\<lambda>vs. (obs, Inr vs)) (gl_contents s))"

definition lf_outcome :: "'a \<Rightarrow> 'a operation list \<Rightarrow> ('a observation list \<times> (error + 'a list)) option" where
  "lf_outcome dflt xs =
     (case lf_run xs (lf_init dflt) of
        None \<Rightarrow> None
      | Some (obs, Inl e) \<Rightarrow> Some (obs, Inl e)
      | Some (obs, Inr s) \<Rightarrow> map_option (\<lambda>vs. (obs, Inr vs)) (lf_contents s))"

text \<open>
  The contract of section 4.1 of the specification on a plain sequence of values, for
  comparison with the two implementations: \<open>front\<close>, \<open>back\<close> and \<open>pop_front\<close> fail on
  the empty list, \<open>push_back\<close> appends, \<open>remove\<close> deletes every equal element.
\<close>

fun seq_apply :: "'a operation \<Rightarrow> 'a list \<Rightarrow> error + 'a observation \<times> 'a list" where
  "seq_apply Size vs = Inr (Count (length vs), vs)"
| "seq_apply Front vs = (if vs = [] then Inl Assertion_failed else Inr (Reference (hd vs), vs))"
| "seq_apply Back vs = (if vs = [] then Inl Assertion_failed else Inr (Reference (last vs), vs))"
| "seq_apply Pop_front vs = (if vs = [] then Inl Assertion_failed else Inr (Done, tl vs))"
| "seq_apply (Push_back v) vs = Inr (Done, vs @ [v])"
| "seq_apply (Remove v) vs = Inr (Done, filter (\<lambda>x. x \<noteq> v) vs)"
| "seq_apply Iterate vs = Inr (Sequence vs, vs)"

fun seq_run :: "'a operation list \<Rightarrow> 'a list \<Rightarrow> 'a observation list \<times> (error + 'a list)" where
  "seq_run [] vs = ([], Inr vs)"
| "seq_run (x # xs) vs =
     (case seq_apply x vs of
        Inl e \<Rightarrow> ([], Inl e)
      | Inr (ob, vs') \<Rightarrow> (case seq_run xs vs' of (obs, r) \<Rightarrow> (ob # obs, r)))"

subsection \<open>A state with a marked node left in the chain\<close>

text \<open>
  Two threads call \<open>remove(7)\<close> concurrently on the list \<open>[7, 7]\<close> (sentinel at
  address 0, the nodes at 1 and 2). Written as the sequence of their atomic accesses to
  the links:
  \<^item> thread A finds node 1 and marks it (\<open>p->next_.mark()\<close> returns true); its \<open>pp\<close> is
    the sentinel's link;
  \<^item> thread B runs its whole call: node 1 is already marked (\<open>mark()\<close> returns false), so
    B moves on with \<open>pp\<close> still the sentinel's link; it marks node 2, and its
    compare-and-swap of the sentinel's link from node 2 fails, because that link still
    points to node 1;
  \<^item> thread A's compare-and-swap swings the sentinel's link from node 1 to node 2;
    A moves on to node 2, finds it marked already, and ends.

  Every link that is accessed belongs to the sentinel or to a node that the accessing
  thread still references. In the final state node 2 is marked and is the first node
  after the sentinel.
\<close>

definition list_7_7 :: "nat lock_free_impl" where
  "list_7_7 =
     \<lparr>lf_store = [\<lparr>node_value = 0, node_next = \<lparr>ptr = Some 1, mark_bit = False\<rparr>\<rparr>,
                  \<lparr>node_value = 7, node_next = \<lparr>ptr = Some 2, mark_bit = False\<rparr>\<rparr>,
                  \<lparr>node_value = 7, node_next = \<lparr>ptr = None, mark_bit = False\<rparr>\<rparr>],
      lf_head = 0\<rparr>"

definition marked_first :: "nat lock_free_impl" where
  "marked_first =
     (let h0 = lf_store list_7_7;
          hA1 = snd (mark_link h0 1);
          hB1 = snd (mark_link hA1 1);
          hB2 = snd (mark_link hB1 2);
          hB3 = snd (cas_link hB2 0 (Some 2) (ptr (node_next (hB2 ! 2))));
          hA2 = snd (cas_link hB3 0 (Some 1) (ptr (node_next (hB3 ! 1))));
          hA3 = snd (mark_link hA2 2)
      in list_7_7\<lparr>lf_store := hA3\<rparr>)"

section \<open>Invariants and abstraction relations\<close>

text \<open>
  The invariant of \<open>global_lock_impl\<close>, where \<open>as\<close> lists the nodes reachable from
  \<open>head_\<close>: \<open>head_\<close> is null if and only if \<open>tail_\<close> is null, and a non-null \<open>tail_\<close> is
  the last reachable node, whose \<open>next_\<close> is null.
\<close>

definition gl_invariant :: "'a global_lock_impl \<Rightarrow> addr list \<Rightarrow> bool" where
  "gl_invariant s as =
     (chain (gl_next (gl_store s)) (length (gl_store s)) (gl_head s) as \<and>
      (gl_head s = None \<longleftrightarrow> gl_tail s = None) \<and>
      (case gl_tail s of
         None \<Rightarrow> True
       | Some t \<Rightarrow> as \<noteq> [] \<and> t = last as \<and> node_next (gl_store s ! t) = None))"

text \<open>
  A state represents a sequence of values: the locked list through the values of its
  chain; the lock-free list through a chain without marked nodes behind an unmarked
  sentinel, which is what sequential use produces.
\<close>

definition gl_seq :: "'a global_lock_impl \<Rightarrow> 'a list \<Rightarrow> bool" where
  "gl_seq s vs = (\<exists>as. gl_list s as \<and> gl_values s as = vs)"

definition lf_seq :: "'a lock_free_impl \<Rightarrow> 'a list \<Rightarrow> bool" where
  "lf_seq s vs =
     (\<exists>as. lf_list s as \<and> lf_sentinel_ok s \<and> lf_unmarked s as = as \<and> lf_logical s as = vs)"

subsection \<open>Example states\<close>

text \<open>
  The states that \<open>push_back\<close> builds from the freshly constructed lists for the
  sequences \<open>[1, 2]\<close> and \<open>[1, 9, 2, 9, 3]\<close>.
\<close>

definition gl_two :: "nat global_lock_impl" where
  "gl_two =
     \<lparr>gl_store = [\<lparr>node_value = 1, node_next = Some 1\<rparr>, \<lparr>node_value = 2, node_next = None\<rparr>],
      gl_head = Some 0, gl_tail = Some 1\<rparr>"

definition gl_five :: "nat global_lock_impl" where
  "gl_five =
     \<lparr>gl_store = [\<lparr>node_value = 1, node_next = Some 1\<rparr>, \<lparr>node_value = 9, node_next = Some 2\<rparr>,
                  \<lparr>node_value = 2, node_next = Some 3\<rparr>, \<lparr>node_value = 9, node_next = Some 4\<rparr>,
                  \<lparr>node_value = 3, node_next = None\<rparr>],
      gl_head = Some 0, gl_tail = Some 4\<rparr>"

definition lf_five :: "nat lock_free_impl" where
  "lf_five =
     \<lparr>lf_store = [\<lparr>node_value = 0, node_next = \<lparr>ptr = Some 1, mark_bit = False\<rparr>\<rparr>,
                  \<lparr>node_value = 1, node_next = \<lparr>ptr = Some 2, mark_bit = False\<rparr>\<rparr>,
                  \<lparr>node_value = 9, node_next = \<lparr>ptr = Some 3, mark_bit = False\<rparr>\<rparr>,
                  \<lparr>node_value = 2, node_next = \<lparr>ptr = Some 4, mark_bit = False\<rparr>\<rparr>,
                  \<lparr>node_value = 9, node_next = \<lparr>ptr = Some 5, mark_bit = False\<rparr>\<rparr>,
                  \<lparr>node_value = 3, node_next = \<lparr>ptr = None, mark_bit = False\<rparr>\<rparr>],
      lf_head = 0\<rparr>"


section \<open>Interleaved executions of lock\_free\_impl\<close>

text \<open>
  The three mutating member functions of \<open>lock_free_impl\<close> once more, cut at their
  accesses to the links of shared nodes, so that the calls of several threads can be
  interleaved. A frame is the program point of a call in progress together with its
  local variables; one step performs the next access of that call. The read-only member
  functions write to no link and are left out.
\<close>

datatype 'a frame =
    Pop_assert
  | Pop_read
  | Pop_mark addr
  | Pop_load addr
  | Pop_assign addr "addr option"
  | Push_assert 'a
  | Push_read 'a
  | Push_walk 'a "addr option" addr
  | Push_cas 'a addr addr
  | Remove_read 'a
  | Remove_test 'a "addr option" addr
  | Remove_mark 'a addr addr
  | Remove_load 'a addr addr
  | Remove_cas 'a addr addr "addr option"
  | Remove_advance 'a addr addr
  | Returned
  | Aborted

text \<open>
  \<open>pop_front\<close>: \<open>Pop_assert\<close> is the label \<open>retry\<close> with the assertion on the sentinel,
  \<open>Pop_read\<close> reads \<open>cur = prev->next_\<close> and asserts it, \<open>Pop_mark cur\<close> is
  \<open>cur->next_.mark()\<close>, \<open>Pop_load cur\<close> reads \<open>cur->next_\<close> and \<open>Pop_assign cur x\<close> assigns it
  to \<open>prev->next_\<close>.

  \<open>push_back(val)\<close>: \<open>Push_assert\<close> is \<open>retry\<close> with the assertion, \<open>Push_read\<close> starts the
  walk at \<open>head_->next_\<close>, \<open>Push_walk val p pp\<close> is the loop test: it reads \<open>p->next_\<close>, or
  at the end of the chain allocates the node \<open>n\<close>; \<open>Push_cas val pp n\<close> is
  \<open>pp->compare_exchange_strong(p, n)\<close> with \<open>p\<close> null.

  \<open>remove(val)\<close>: \<open>Remove_read\<close> starts at \<open>head_->next_\<close>, \<open>Remove_test val p pp\<close> is the
  loop test with the comparison of the value, after which a node that does not match is
  passed by reading its \<open>next_\<close>; \<open>Remove_mark val p pp\<close> is \<open>p->next_.mark()\<close>,
  \<open>Remove_load\<close> reads \<open>p->next_\<close> as the desired value, \<open>Remove_cas val p pp x\<close> is
  \<open>pp->compare_exchange_strong(p, x)\<close> and \<open>Remove_advance val p pp\<close> is \<open>p = p->next_\<close>.
\<close>

fun step :: "addr \<Rightarrow> 'a lf_node list \<Rightarrow> 'a frame \<Rightarrow> 'a lf_node list \<times> 'a frame" where
  "step sn h Pop_assert = (h, if is_marked (h ! sn) then Aborted else Pop_read)"
| "step sn h Pop_read =
     (h, case ptr (node_next (h ! sn)) of None \<Rightarrow> Aborted | Some cur \<Rightarrow> Pop_mark cur)"
| "step sn h (Pop_mark cur) =
     (let (ok, h1) = mark_link h cur in (h1, if ok then Pop_load cur else Pop_assert))"
| "step sn h (Pop_load cur) = (h, Pop_assign cur (ptr (node_next (h ! cur))))"
| "step sn h (Pop_assign cur x) = (assign_link h sn x, Returned)"
| "step sn h (Push_assert val) = (h, if is_marked (h ! sn) then Aborted else Push_read val)"
| "step sn h (Push_read val) = (h, Push_walk val (ptr (node_next (h ! sn))) sn)"
| "step sn h (Push_walk val p pp) =
     (case p of
        None \<Rightarrow> (h @ [\<lparr>node_value = val, node_next = null_ref\<rparr>], Push_cas val pp (length h))
      | Some a \<Rightarrow> (h, Push_walk val (ptr (node_next (h ! a))) a))"
| "step sn h (Push_cas val pp n) =
     (let (ok, h1) = cas_link h pp None (Some n) in (h1, if ok then Returned else Push_assert val))"
| "step sn h (Remove_read val) = (h, Remove_test val (ptr (node_next (h ! sn))) sn)"
| "step sn h (Remove_test val p pp) =
     (case p of
        None \<Rightarrow> (h, Returned)
      | Some a \<Rightarrow>
          if node_value (h ! a) = val then (h, Remove_mark val a pp)
          else (h, Remove_test val (ptr (node_next (h ! a))) a))"
| "step sn h (Remove_mark val a pp) =
     (let (ok, h1) = mark_link h a
      in (h1, if ok then Remove_load val a pp else Remove_advance val a pp))"
| "step sn h (Remove_load val a pp) = (h, Remove_cas val a pp (ptr (node_next (h ! a))))"
| "step sn h (Remove_cas val a pp x) = (snd (cas_link h pp (Some a) x), Remove_advance val a pp)"
| "step sn h (Remove_advance val a pp) = (h, Remove_test val (ptr (node_next (h ! a))) pp)"
| "step sn h Returned = (h, Returned)"
| "step sn h Aborted = (h, Aborted)"

text \<open>A call run on its own, from a frame to its return or its failed assertion.\<close>

partial_function (option) run_alone :: "addr \<Rightarrow> 'a lf_node list \<Rightarrow> 'a frame \<Rightarrow> (error + 'a lf_node list) option" where
  "run_alone sn h fr =
     (case fr of
        Returned \<Rightarrow> Some (Inr h)
      | Aborted \<Rightarrow> Some (Inl Assertion_failed)
      | _ \<Rightarrow> (case step sn h fr of (h', fr') \<Rightarrow> run_alone sn h' fr'))"

declare run_alone.simps [code]

text \<open>
  A system is the store with the frames of its threads. A schedule is a list of actions:
  a thread takes its next step, or a thread whose previous call has ended enters a new
  call of \<open>pop_front\<close>, \<open>push_back\<close> or \<open>remove\<close>.
\<close>

datatype 'a action = Step nat | Call nat "'a frame"

fun entry :: "'a frame \<Rightarrow> bool" where
  "entry Pop_assert = True"
| "entry (Push_assert val) = True"
| "entry (Remove_read val) = True"
| "entry fr = False"

fun ended :: "'a frame \<Rightarrow> bool" where
  "ended Returned = True"
| "ended Aborted = True"
| "ended fr = False"

fun act :: "addr \<Rightarrow> 'a action \<Rightarrow> 'a lf_node list \<times> 'a frame list \<Rightarrow> 'a lf_node list \<times> 'a frame list" where
  "act sn (Step i) (h, frs) =
     (if i < length frs then (case step sn h (frs ! i) of (h', fr') \<Rightarrow> (h', frs[i := fr']))
      else (h, frs))"
| "act sn (Call i fr) (h, frs) =
     (if i < length frs \<and> ended (frs ! i) \<and> entry fr then (h, frs[i := fr]) else (h, frs))"

fun run_schedule :: "addr \<Rightarrow> 'a action list \<Rightarrow> 'a lf_node list \<times> 'a frame list \<Rightarrow> 'a lf_node list \<times> 'a frame list" where
  "run_schedule sn [] st = st"
| "run_schedule sn (x # xs) st = run_schedule sn xs (act sn x st)"

text \<open>
  What every interleaving preserves. Nodes are linked in the order of their allocation:
  a link of node \<open>a\<close> is null or points to an allocated node with a higher address than
  \<open>a\<close>. The sentinel is allocated and not marked. The nodes that a call holds in its
  local variables lie above the node whose link \<open>pp\<close> addresses, which is the sentinel or
  lies above it; so no call holds the sentinel in \<open>cur\<close> or \<open>p\<close>.
\<close>

definition link_above :: "addr \<Rightarrow> nat \<Rightarrow> addr option \<Rightarrow> bool" where
  "link_above a n p = (case p of None \<Rightarrow> True | Some b \<Rightarrow> a < b \<and> b < n)"




text \<open>
  The schedule of the two concurrent calls of \<open>remove(7)\<close> on \<open>list_7_7\<close> that leaves the
  marked node 2 first in the chain: thread 0 marks node 1, thread 1 runs its whole call,
  thread 0 runs the rest of its call.
\<close>

definition two_removes_schedule :: "nat action list" where
  "two_removes_schedule =
     [Step 0, Step 0, Step 0,
      Step 1, Step 1, Step 1, Step 1, Step 1, Step 1, Step 1, Step 1, Step 1, Step 1,
      Step 0, Step 0, Step 0, Step 0, Step 0, Step 0, Step 0]"

section \<open>Properties of paths\<close>


lemma path_append:
  "path nxt n p (as @ bs) q = (\<exists>r. path nxt n p as r \<and> path nxt n r bs q)"
  by (induction as arbitrary: p) auto

lemma path_bound: "path nxt n p as q \<Longrightarrow> a \<in> set as \<Longrightarrow> a < n"
  by (induction as arbitrary: p) auto

lemma path_cong:
  "path nxt n p as q \<Longrightarrow> (\<And>a. a \<in> set as \<Longrightarrow> nxt' a = nxt a) \<Longrightarrow> n \<le> n'
   \<Longrightarrow> path nxt' n' p as q"
  by (induction as arbitrary: p) auto

lemma chain_unique: "chain nxt n p as \<Longrightarrow> chain nxt n p bs \<Longrightarrow> as = bs"
proof (induction as arbitrary: p bs)
  case Nil
  then show ?case by (cases bs) (auto simp: chain_def)
next
  case (Cons a as)
  then show ?case by (cases bs) (auto simp: chain_def)
qed

lemma chain_distinct: "chain nxt n p as \<Longrightarrow> distinct as"
proof (induction as arbitrary: p)
  case Nil
  then show ?case by simp
next
  case (Cons a as)
  have tl: "chain nxt n (nxt a) as" and p: "p = Some a" and a: "a < n"
    using Cons.prems by (auto simp: chain_def)
  have "a \<notin> set as"
  proof
    assume "a \<in> set as"
    then obtain xs ys where as: "as = xs @ a # ys"
      by (auto simp: in_set_conv_decomp)
    with tl obtain r where "path nxt n r (a # ys) None"
      by (auto simp: chain_def path_append)
    then have "chain nxt n (nxt a) ys" by (simp add: chain_def)
    with tl have "as = ys" by (rule chain_unique)
    with as show False by simp
  qed
  with Cons.IH [OF tl] show ?case by simp
qed

lemma chain_Nil [simp]: "chain nxt n p [] = (p = None)"
  by (auto simp: chain_def)

lemma chain_Cons [simp]:
  "chain nxt n p (a # as) = (p = Some a \<and> a < n \<and> chain nxt n (nxt a) as)"
  by (simp add: chain_def)

lemma chain_None [simp]: "chain nxt n None as = (as = [])"
  by (cases as) auto


section \<open>global\_lock\_impl on well-formed states\<close>

lemma gl_size_loop_chain:
  "chain (gl_next h) n p as \<Longrightarrow> gl_size_loop h p ret = Some (ret + length as)"
proof (induction as arbitrary: p ret)
  case Nil
  then show ?case by (simp add: gl_size_loop.simps)
next
  case (Cons a as)
  then show ?case
    by (subst gl_size_loop.simps) (simp add: gl_next_def)
qed

lemma gl_iterate_loop_chain:
  "chain (gl_next h) n p as \<Longrightarrow>
   gl_iterate_loop h p acc = Some (acc @ map (\<lambda>a. node_value (h ! a)) as)"
proof (induction as arbitrary: p acc)
  case Nil
  then show ?case by (simp add: gl_iterate_loop.simps)
next
  case (Cons a as)
  then show ?case
    by (subst gl_iterate_loop.simps) (simp add: gl_next_def)
qed

lemma gl_size_list: "gl_list s as \<Longrightarrow> gl_size s = Some (length as)"
  using gl_size_loop_chain [of "gl_store s" "length (gl_store s)" "gl_head s" as 0]
  by (simp add: gl_list_def gl_size_def)

lemma gl_iterate_list: "gl_list s as \<Longrightarrow> gl_iterate s = Some (gl_values s as)"
  using gl_iterate_loop_chain [of "gl_store s" "length (gl_store s)" "gl_head s" as "[]"]
  by (simp add: gl_list_def gl_iterate_def gl_values_def)

lemma gl_list_init: "gl_list gl_init []"
  by (simp add: gl_list_def gl_init_def last_ptr_def)

lemma gl_list_empty: "gl_list s [] = (gl_head s = None \<and> gl_tail s = None)"
  by (auto simp: gl_list_def last_ptr_def)

lemma gl_front_list:
  "gl_list s as \<Longrightarrow> gl_front s = (if as = [] then Inl Assertion_failed else Inr (hd (gl_values s as)))"
  by (cases as) (auto simp: gl_list_def gl_front_def gl_values_def)

lemma chain_last_next:
  "chain nxt n p as \<Longrightarrow> as \<noteq> [] \<Longrightarrow> nxt (last as) = None"
  by (induction as arbitrary: p) (auto split: if_splits)

lemma gl_back_list:
  "gl_list s as \<Longrightarrow> gl_back s = (if as = [] then Inl Assertion_failed else Inr (last (gl_values s as)))"
  using chain_last_next [of "gl_next (gl_store s)" "length (gl_store s)" "gl_head s" as]
  by (auto simp: gl_list_def gl_back_def gl_values_def last_ptr_def last_map gl_next_def)

lemma gl_pop_front_list:
  "gl_list s (a # as) \<Longrightarrow>
   \<exists>s'. gl_pop_front s = Inr s' \<and> gl_list s' as \<and> gl_store s' = gl_store s"
  by (cases as) (auto simp: gl_list_def gl_pop_front_def Let_def last_ptr_def gl_next_def)

lemma gl_pop_front_empty: "gl_list s [] \<Longrightarrow> gl_pop_front s = Inl Assertion_failed"
  by (simp add: gl_list_def gl_pop_front_def)

lemma gl_try_pop_front_list:
  "gl_list s (a # as) \<Longrightarrow>
   \<exists>s'. gl_try_pop_front d s = Inr ((True, node_value (gl_store s ! a)), s') \<and> gl_list s' as
      \<and> gl_store s' = gl_store s"
  by (cases as) (auto simp: gl_list_def gl_try_pop_front_def Let_def last_ptr_def gl_next_def)

lemma gl_try_pop_front_empty: "gl_list s [] \<Longrightarrow> gl_try_pop_front d s = Inr ((False, d), s)"
  by (simp add: gl_list_def gl_try_pop_front_def last_ptr_def)

lemma chain_snoc:
  assumes "chain nxt n p as" and "as \<noteq> []"
    and "nxt' (last as) = Some b" and "nxt' b = None"
    and "\<And>a. a \<in> set (butlast as) \<Longrightarrow> nxt' a = nxt a"
    and "n \<le> b" "b < n'"
  shows "chain nxt' n' p (as @ [b])"
  using assms
proof (induction as arbitrary: p)
  case Nil
  then show ?case by simp
next
  case (Cons a as)
  have d: "distinct (a # as)" using Cons.prems(1) by (rule chain_distinct)
  show ?case
  proof (cases "as = []")
    case True
    with Cons.prems show ?thesis by auto
  next
    case False
    with Cons.prems d have "chain nxt' n' (nxt a) (as @ [b])"
      by (intro Cons.IH) auto
    with Cons.prems False show ?thesis by auto
  qed
qed

lemma gl_push_back_list:
  assumes "gl_list s as"
  shows "\<exists>s'. gl_push_back v s = Inr s' \<and> gl_list s' (as @ [length (gl_store s)])
           \<and> gl_values s' (as @ [length (gl_store s)]) = gl_values s as @ [v]"
proof (cases "as = []")
  case True
  with assms show ?thesis
    by (auto simp: gl_list_def gl_push_back_def Let_def last_ptr_def gl_next_def gl_values_def)
next
  case False
  let ?n = "length (gl_store s)"
  let ?h = "gl_store s @ [\<lparr>node_value = v, node_next = None\<rparr>]"
  let ?h' = "?h[last as := (?h ! last as)\<lparr>node_next := Some ?n\<rparr>]"
  from assms have ch: "chain (gl_next (gl_store s)) ?n (gl_head s) as"
    and t: "gl_tail s = Some (last as)"
    using False by (auto simp: gl_list_def last_ptr_def)
  have d: "distinct as" using ch by (rule chain_distinct)
  have b: "\<And>a. a \<in> set as \<Longrightarrow> a < ?n"
    using ch by (auto simp: chain_def dest: path_bound)
  have l: "last as < ?n" using b False by simp
  have nb: "\<And>a. a \<in> set (butlast as) \<Longrightarrow> a \<noteq> last as"
    using d False by (metis append_butlast_last_id distinct_append distinct.simps(2) disjoint_iff list.set_intros(1))
  have "chain (gl_next ?h') (Suc ?n) (gl_head s) (as @ [?n])"
  proof (rule chain_snoc [OF ch False])
    show "gl_next ?h' (last as) = Some ?n" using l by (simp add: gl_next_def)
    show "gl_next ?h' ?n = None" using l by (simp add: gl_next_def)
    show "gl_next ?h' a = gl_next (gl_store s) a" if "a \<in> set (butlast as)" for a
      using nb [OF that] b [of a] that by (auto simp: gl_next_def nth_append dest: in_set_butlastD)
  qed simp_all
  moreover have "map (\<lambda>a. node_value (?h' ! a)) as = map (\<lambda>a. node_value (gl_store s ! a)) as"
    using b l by (auto simp: nth_append nth_list_update)
  ultimately show ?thesis using t l
    by (simp add: gl_list_def gl_push_back_def Let_def last_ptr_def gl_values_def)
qed


lemma path_snoc:
  "path nxt n p (as @ [b]) q = (path nxt n p as (Some b) \<and> b < n \<and> nxt b = q)"
  by (auto simp: path_append)

lemma chain_split:
  "chain nxt n p (as @ bs) = (\<exists>r. path nxt n p as r \<and> chain nxt n r bs)"
  by (simp add: chain_def path_append)

lemma node_value_update_next [simp]:
  "node_value (h[a := (h ! a)\<lparr>node_next := v\<rparr>] ! b) = node_value (h ! b)"
proof (cases "a = b")
  case True
  then show ?thesis by (cases "b < length h") (simp_all add: list_update_beyond)
next
  case False
  then show ?thesis by simp
qed

lemma gl_remove_loop_list:
  fixes s :: "'a global_lock_impl"
  assumes "path (gl_next (gl_store s)) (length (gl_store s)) (gl_head s) ds p"
    and "chain (gl_next (gl_store s)) (length (gl_store s)) p rs"
    and "prev = last_ptr ds"
    and "pp = (if ds = [] then Head_link else Next_link (last ds))"
    and "gl_tail s = last_ptr (if rs = [] then ds else rs)"
  shows "\<exists>s'. gl_remove_loop val s prev p pp = Some s'
           \<and> gl_list s' (ds @ filter (\<lambda>a. node_value (gl_store s ! a) \<noteq> val) rs)
           \<and> length (gl_store s') = length (gl_store s)
           \<and> (\<forall>a. node_value (gl_store s' ! a) = node_value (gl_store s ! a))"
  using assms
proof (induction rs arbitrary: s ds prev p pp)
  case Nil
  then show ?case
    by (subst gl_remove_loop.simps) (simp add: gl_list_def chain_def)
next
  case (Cons a rs)
  let ?h = "gl_store s"
  let ?n = "length ?h"
  have p: "p = Some a" and a: "a < ?n" and rs: "chain (gl_next ?h) ?n (gl_next ?h a) rs"
    using Cons.prems(2) by auto
  have whole: "chain (gl_next ?h) ?n (gl_head s) (ds @ a # rs)"
    using Cons.prems(1,2) by (auto simp: chain_split)
  then have dist: "distinct (ds @ a # rs)" by (rule chain_distinct)
  show ?case
  proof (cases "node_value (?h ! a) = val")
    case False
    have "\<exists>s'. gl_remove_loop val s (Some a) (gl_next ?h a) (Next_link a) = Some s'
           \<and> gl_list s' ((ds @ [a]) @ filter (\<lambda>a. node_value (gl_store s ! a) \<noteq> val) rs)
           \<and> length (gl_store s') = length (gl_store s)
           \<and> (\<forall>a. node_value (gl_store s' ! a) = node_value (gl_store s ! a))"
    proof (rule Cons.IH)
      show "path (gl_next ?h) ?n (gl_head s) (ds @ [a]) (gl_next ?h a)"
        using Cons.prems(1) p a by (simp add: path_snoc)
      show "gl_tail s = last_ptr (if rs = [] then ds @ [a] else rs)"
        using Cons.prems(5) by (simp add: last_ptr_def)
    qed (use rs in \<open>simp_all add: last_ptr_def\<close>)
    then show ?thesis
      using False p by (subst gl_remove_loop.simps) (simp add: gl_next_def)
  next
    case True
    let ?s1 = "write_link pp (node_next (?h ! a)) s"
    let ?s2 = "if read_link pp ?s1 = None then ?s1\<lparr>gl_tail := prev\<rparr> else ?s1"
    have rd: "read_link pp ?s1 = gl_next ?h a"
    proof (cases "ds = []")
      case True
      then show ?thesis using Cons.prems(4) by (simp add: read_link_def write_link_def gl_next_def)
    next
      case False
      then have "last ds < ?n"
        using Cons.prems(1) path_bound [of _ _ _ ds _ "last ds"] by auto
      then show ?thesis
        using False Cons.prems(4) by (simp add: read_link_def write_link_def gl_next_def)
    qed
    have len2: "length (gl_store ?s2) = ?n"
      by (simp add: write_link_def split: link.splits)
    have val2: "node_value (gl_store ?s2 ! b) = node_value (?h ! b)" for b
      by (simp add: write_link_def split: link.splits)
    have nxt2: "gl_next (gl_store ?s2) b = gl_next ?h b" if "pp \<noteq> Next_link b" for b
      using that by (auto simp: write_link_def gl_next_def nth_list_update split: link.splits)
    have path2: "path (gl_next (gl_store ?s2)) (length (gl_store ?s2)) (gl_head ?s2) ds (gl_next ?h a)"
    proof (cases "ds = []")
      case True
      then show ?thesis using Cons.prems(4) by (simp add: write_link_def read_link_def gl_next_def)
    next
      case False
      then obtain ds0 b where ds: "ds = ds0 @ [b]"
        by (metis append_butlast_last_id)
      have pb: "pp = Next_link b" using ds Cons.prems(4) by simp
      have b: "b < ?n" and p0: "path (gl_next ?h) ?n (gl_head s) ds0 (Some b)"
        using Cons.prems(1) ds by (auto simp: path_snoc)
      have "path (gl_next (gl_store ?s2)) ?n (gl_head s) ds0 (Some b)"
      proof (rule path_cong [OF p0])
        fix c assume "c \<in> set ds0"
        then have "c \<noteq> b" using dist ds by auto
        then show "gl_next (gl_store ?s2) c = gl_next ?h c"
          using pb by (intro nxt2) simp
      qed simp
      moreover have "gl_next (gl_store ?s2) b = gl_next ?h a"
        using rd pb b by (auto simp: read_link_def gl_next_def write_link_def)
      moreover have "gl_head ?s2 = gl_head s"
        using pb by (simp add: write_link_def)
      ultimately show ?thesis using ds b len2 by (simp add: path_snoc del: length_list_update)
    qed
    have chain2: "chain (gl_next (gl_store ?s2)) (length (gl_store ?s2)) (gl_next ?h a) rs"
      unfolding chain_def
    proof (rule path_cong [OF rs [unfolded chain_def]])
      fix c assume c: "c \<in> set rs"
      have "pp \<noteq> Next_link c"
      proof (cases "ds = []")
        case True
        then show ?thesis using Cons.prems(4) by simp
      next
        case False
        then have "last ds \<in> set ds" by simp
        then have "last ds \<noteq> c" using dist c by auto
        then show ?thesis using False Cons.prems(4) by simp
      qed
      then show "gl_next (gl_store ?s2) c = gl_next ?h c" by (rule nxt2)
    qed (simp add: len2)
    have tail2: "gl_tail ?s2 = last_ptr (if rs = [] then ds else rs)"
    proof (cases "rs = []")
      case True
      then have "gl_next ?h a = None" using rs by simp
      then show ?thesis using rd True Cons.prems(3) by simp
    next
      case False
      then have "gl_next ?h a \<noteq> None" using rs by (cases rs) auto
      then show ?thesis
        using rd False Cons.prems(5) by (auto simp: last_ptr_def write_link_def split: link.splits)
    qed
    have "\<exists>s'. gl_remove_loop val ?s2 prev (gl_next ?h a) pp = Some s'
           \<and> gl_list s' (ds @ filter (\<lambda>a. node_value (gl_store ?s2 ! a) \<noteq> val) rs)
           \<and> length (gl_store s') = length (gl_store ?s2)
           \<and> (\<forall>a. node_value (gl_store s' ! a) = node_value (gl_store ?s2 ! a))"
      using path2 chain2 Cons.prems(3,4) tail2 by (rule Cons.IH)
    then obtain s' where s': "gl_remove_loop val ?s2 prev (gl_next ?h a) pp = Some s'"
        "gl_list s' (ds @ filter (\<lambda>a. node_value (gl_store ?s2 ! a) \<noteq> val) rs)"
        "length (gl_store s') = length (gl_store ?s2)"
        "\<forall>a. node_value (gl_store s' ! a) = node_value (gl_store ?s2 ! a)"
      by blast
    have "gl_remove_loop val s prev p pp = Some s'"
      using True p s'(1) rd by (subst gl_remove_loop.simps) (simp add: Let_def)
    moreover have "filter (\<lambda>a. node_value (gl_store ?s2 ! a) \<noteq> val) rs
        = filter (\<lambda>a. node_value (?h ! a) \<noteq> val) rs"
      using val2 by (intro filter_cong) auto
    ultimately show ?thesis
      using s'(2,3,4) True len2 val2 by (simp del: length_list_update)
  qed
qed

lemma gl_remove_list:
  assumes "gl_list s as"
  shows "\<exists>s'. gl_remove val s = Some s'
           \<and> gl_list s' (filter (\<lambda>a. node_value (gl_store s ! a) \<noteq> val) as)
           \<and> length (gl_store s') = length (gl_store s)
           \<and> (\<forall>a. node_value (gl_store s' ! a) = node_value (gl_store s ! a))"
  using gl_remove_loop_list [of s "[]" "gl_head s" as None Head_link val] assms
  by (simp add: gl_remove_def gl_list_def last_ptr_def)

lemma gl_remove_loop_absent:
  assumes "chain (gl_next (gl_store s)) (length (gl_store s)) p rs"
    and "\<And>a. a \<in> set rs \<Longrightarrow> node_value (gl_store s ! a) \<noteq> val"
  shows "gl_remove_loop val s prev p pp = Some s"
  using assms
proof (induction rs arbitrary: prev p pp)
  case Nil
  then show ?case by (subst gl_remove_loop.simps) simp
next
  case (Cons a rs)
  then show ?case by (subst gl_remove_loop.simps) (simp add: gl_next_def)
qed

lemma gl_remove_absent:
  "gl_list s as \<Longrightarrow> val \<notin> set (gl_values s as) \<Longrightarrow> gl_remove val s = Some s"
  using gl_remove_loop_absent [of s "gl_head s" as val None Head_link]
  by (auto simp: gl_remove_def gl_list_def gl_values_def)


lemma gl_invariant_list: "gl_invariant s as = gl_list s as"
proof
  assume inv: "gl_invariant s as"
  then have ch: "chain (gl_next (gl_store s)) (length (gl_store s)) (gl_head s) as"
    by (simp add: gl_invariant_def)
  show "gl_list s as"
  proof (cases "gl_tail s")
    case None
    then have "gl_head s = None" using inv by (simp add: gl_invariant_def)
    then have "as = []" using ch by simp
    then show ?thesis using ch None by (simp add: gl_list_def last_ptr_def)
  next
    case (Some t)
    then show ?thesis using inv ch by (simp add: gl_invariant_def gl_list_def last_ptr_def)
  qed
next
  assume l: "gl_list s as"
  then have ch: "chain (gl_next (gl_store s)) (length (gl_store s)) (gl_head s) as"
    and t: "gl_tail s = last_ptr as"
    by (simp_all add: gl_list_def)
  show "gl_invariant s as"
  proof (cases "as = []")
    case True
    then show ?thesis using ch t by (simp add: gl_invariant_def last_ptr_def)
  next
    case False
    then have "gl_head s \<noteq> None" using ch by (cases as) auto
    moreover have "gl_next (gl_store s) (last as) = None"
      using ch False by (rule chain_last_next)
    ultimately show ?thesis
      using ch t False by (simp add: gl_invariant_def last_ptr_def gl_next_def)
  qed
qed

lemma gl_invariant_ex: "gl_list s as \<Longrightarrow> \<exists>bs. gl_invariant s bs"
  by (auto simp: gl_invariant_list)

lemma gl_values_store: "gl_store s' = gl_store s \<Longrightarrow> gl_values s' as = gl_values s as"
  by (simp add: gl_values_def)

lemma gl_push_all_list:
  "gl_list s as \<Longrightarrow>
   \<exists>s' bs. gl_push_all vs s = Inr s' \<and> gl_list s' (as @ bs)
      \<and> gl_values s' (as @ bs) = gl_values s as @ vs"
proof (induction vs arbitrary: s as)
  case Nil
  then show ?case by (auto intro: exI [of _ "[]"])
next
  case (Cons v vs)
  from gl_push_back_list [OF Cons.prems, of v]
  obtain s1 where s1: "gl_push_back v s = Inr s1" "gl_list s1 (as @ [length (gl_store s)])"
    "gl_values s1 (as @ [length (gl_store s)]) = gl_values s as @ [v]"
    by blast
  from Cons.IH [OF s1(2)]
  obtain s' bs where s': "gl_push_all vs s1 = Inr s'" "gl_list s' ((as @ [length (gl_store s)]) @ bs)"
    "gl_values s' ((as @ [length (gl_store s)]) @ bs) = gl_values s1 (as @ [length (gl_store s)]) @ vs"
    by blast
  show ?case
    apply (rule exI [of _ s'], rule exI [of _ "length (gl_store s) # bs"])
    using s1 s' by simp
qed

lemma gl_drain_list:
  "gl_list s as \<Longrightarrow>
   \<exists>s'. gl_drain d s acc = Some (Inr (acc @ gl_values s as, s')) \<and> gl_list s' []"
proof (induction as arbitrary: s acc)
  case Nil
  then show ?case
    by (subst gl_drain.simps) (simp add: gl_try_pop_front_empty gl_values_def)
next
  case (Cons a as)
  from gl_try_pop_front_list [OF Cons.prems, of d]
  obtain s1 where s1: "gl_try_pop_front d s = Inr ((True, node_value (gl_store s ! a)), s1)"
    "gl_list s1 as" "gl_store s1 = gl_store s"
    by blast
  from Cons.IH [OF s1(2), of "acc @ [node_value (gl_store s ! a)]"]
  obtain s' where "gl_drain d s1 (acc @ [node_value (gl_store s ! a)])
      = Some (Inr ((acc @ [node_value (gl_store s ! a)]) @ gl_values s1 as, s'))" "gl_list s' []"
    by blast
  then show ?case
    using s1 by (subst gl_drain.simps) (simp add: gl_values_def)
qed


section \<open>lock\_free\_impl on well-formed states\<close>


lemma length_set_next [simp]: "length (set_next h a l) = length h"
  by (simp add: set_next_def)

lemma nth_set_next:
  "set_next h a l ! b = (if a = b \<and> a < length h then (h ! a)\<lparr>node_next := l\<rparr> else h ! b)"
  by (cases "a = b") (auto simp: set_next_def list_update_beyond not_less)

lemma lf_next_set_next:
  "lf_next (set_next h a l) b = (if a = b \<and> a < length h then ptr l else lf_next h b)"
  by (simp add: lf_next_def nth_set_next)

lemma is_marked_set_next:
  "is_marked (set_next h a l ! b) = (if a = b \<and> a < length h then mark_bit l else is_marked (h ! b))"
  by (simp add: is_marked_def get_mark_def nth_set_next)

lemma node_value_set_next [simp]: "node_value (set_next h a l ! b) = node_value (h ! b)"
  by (simp add: nth_set_next)

lemma set_next_same: "set_next h a (node_next (h ! a)) = h"
  by (simp add: set_next_def)

lemma mark_link_eq:
  "mark_link h a = (\<not> is_marked (h ! a), set_next h a ((node_next (h ! a))\<lparr>mark_bit := True\<rparr>))"
  by (simp add: mark_link_def mark_def is_marked_def get_mark_def)

lemma cas_link_eq:
  "cas_link h a e d =
     (if lf_next h a = e \<and> \<not> is_marked (h ! a)
      then (True, set_next h a \<lparr>ptr = d, mark_bit = False\<rparr>) else (False, h))"
  by (simp add: cas_link_def compare_exchange_strong_def lf_next_def is_marked_def get_mark_def
      set_next_same)

lemma lf_size_loop_chain:
  "chain (lf_next h) n p as \<Longrightarrow> lf_size_loop h p ret = Some (ret + length as)"
proof (induction as arbitrary: p ret)
  case Nil
  then show ?case by (simp add: lf_size_loop.simps)
next
  case (Cons a as)
  then show ?case
    by (subst lf_size_loop.simps) (simp add: lf_next_def)
qed

lemma lf_size_list:
  "lf_list s as \<Longrightarrow> lf_sentinel_ok s \<Longrightarrow> lf_size s = Some (Inr (length as))"
  using lf_size_loop_chain [of "lf_store s" "length (lf_store s)" "lf_next (lf_store s) (lf_head s)" as 0]
  by (simp add: lf_list_def lf_size_def lf_sentinel_ok_def lf_next_def)

lemma lf_contents_loop_chain:
  "chain (lf_next h) n p as \<Longrightarrow>
   lf_contents_loop h p acc
     = Some (acc @ map (\<lambda>a. node_value (h ! a)) (filter (\<lambda>a. \<not> is_marked (h ! a)) as))"
proof (induction as arbitrary: p acc)
  case Nil
  then show ?case by (simp add: lf_contents_loop.simps)
next
  case (Cons a as)
  then show ?case
    by (subst lf_contents_loop.simps) (simp add: lf_next_def)
qed

lemma lf_contents_list: "lf_list s as \<Longrightarrow> lf_contents s = Some (lf_logical s as)"
  using lf_contents_loop_chain [of "lf_store s" "length (lf_store s)" "lf_next (lf_store s) (lf_head s)" as "[]"]
  by (simp add: lf_list_def lf_contents_def lf_logical_def lf_unmarked_def lf_next_def)

lemma gl_contents_loop_chain:
  "chain (gl_next h) n p as \<Longrightarrow>
   gl_contents_loop h p acc = Some (acc @ map (\<lambda>a. node_value (h ! a)) as)"
proof (induction as arbitrary: p acc)
  case Nil
  then show ?case by (simp add: gl_contents_loop.simps)
next
  case (Cons a as)
  then show ?case
    by (subst gl_contents_loop.simps) (simp add: gl_next_def)
qed

lemma gl_contents_list: "gl_list s as \<Longrightarrow> gl_contents s = Some (gl_values s as)"
  using gl_contents_loop_chain [of "gl_store s" "length (gl_store s)" "gl_head s" as "[]"]
  by (simp add: gl_list_def gl_contents_def gl_values_def)

lemma lf_front_list:
  assumes "lf_list s as" and "lf_sentinel_ok s"
  shows "as = [] \<Longrightarrow> lf_front s = Some (Inl Assertion_failed)"
    and "as = a # bs \<Longrightarrow> \<not> is_marked (lf_store s ! a) \<Longrightarrow>
         lf_front s = Some (Inr (node_value (lf_store s ! a)))"
  using assms
  by (subst lf_front.simps; simp add: lf_list_def lf_sentinel_ok_def lf_next_def)+

lemma lf_increment_chain:
  "chain (lf_next h) n (Some a) (a # as) \<Longrightarrow>
   lf_increment h a
     = Some (case dropWhile (\<lambda>b. is_marked (h ! b)) as of [] \<Rightarrow> None | b # bs \<Rightarrow> Some b)"
proof (induction as arbitrary: a)
  case Nil
  then show ?case by (subst lf_increment.simps) (simp add: lf_next_def)
next
  case (Cons b as)
  then show ?case by (subst lf_increment.simps) (simp add: lf_next_def)
qed

lemma chain_suffix:
  "chain nxt n p (as @ b # bs) \<Longrightarrow> chain nxt n (Some b) (b # bs)"
  by (auto simp: chain_split)

lemma lf_iterate_loop_chain:
  "chain (lf_next h) n (Some a) (a # as) \<Longrightarrow>
   lf_iterate_loop h (Some a) acc
     = Some (acc @ node_value (h ! a) # map (\<lambda>b. node_value (h ! b)) (filter (\<lambda>b. \<not> is_marked (h ! b)) as))"
proof (induction "length as" arbitrary: as a acc rule: less_induct)
  case less
  let ?m = "\<lambda>b. is_marked (h ! b)"
  have inc: "lf_increment h a = Some (case dropWhile ?m as of [] \<Rightarrow> None | b # bs \<Rightarrow> Some b)"
    using less.prems by (rule lf_increment_chain)
  show ?case
  proof (cases "dropWhile ?m as")
    case Nil
    then have "filter (\<lambda>b. \<not> ?m b) as = []"
      by (auto simp: filter_empty_conv dropWhile_eq_Nil_conv)
    moreover have "lf_increment h a = Some None" using inc by (simp only: Nil list.case)
    moreover have "lf_iterate_loop h None acc' = Some acc'" for acc'
      by (subst lf_iterate_loop.simps) simp
    ultimately show ?thesis
      by (subst lf_iterate_loop.simps) simp
  next
    case (Cons b bs)
    define ms where "ms = takeWhile ?m as"
    have as: "as = ms @ b # bs"
      unfolding ms_def using takeWhile_dropWhile_id [of ?m as] by (simp only: Cons)
    have ms: "filter (\<lambda>b. \<not> ?m b) ms = []"
      unfolding ms_def by (auto simp: filter_empty_conv dest: set_takeWhileD)
    have b: "\<not> ?m b" using hd_dropWhile [of ?m as] by (simp add: Cons)
    have "chain (lf_next h) n (Some b) (b # bs)"
      using less.prems chain_suffix [of "lf_next h" n "Some a" "a # ms" b bs] by (simp add: as)
    moreover have "length bs < length as" by (simp add: as)
    ultimately have rec: "lf_iterate_loop h (Some b) acc'
        = Some (acc' @ node_value (h ! b) # map (\<lambda>b. node_value (h ! b)) (filter (\<lambda>b. \<not> ?m b) bs))" for acc'
      using less.hyps by blast
    have "filter (\<lambda>b. \<not> ?m b) as = b # filter (\<lambda>b. \<not> ?m b) bs"
      using b ms by (simp add: as)
    moreover have "lf_increment h a = Some (Some b)" using inc by (simp only: Cons list.case)
    ultimately show ?thesis using rec
      by (subst lf_iterate_loop.simps) simp
  qed
qed

lemma lf_iterate_list:
  assumes "lf_list s as"
  shows "lf_iterate s = Some (case as of [] \<Rightarrow> []
           | a # bs \<Rightarrow> node_value (lf_store s ! a) # lf_logical s bs)"
proof (cases as)
  case Nil
  with assms show ?thesis
    by (simp add: lf_iterate_def lf_begin_def lf_list_def lf_next_def lf_iterate_loop.simps)
next
  case (Cons a bs)
  with assms have "chain (lf_next (lf_store s)) (length (lf_store s)) (Some a) (a # bs)"
    and "lf_begin s = Some a"
    by (auto simp: lf_list_def lf_begin_def lf_next_def)
  then show ?thesis
    using Cons lf_iterate_loop_chain [of "lf_store s" _ a bs "[]"]
    by (simp add: lf_iterate_def lf_logical_def lf_unmarked_def)
qed


lemma lf_list_head: "lf_list s as \<Longrightarrow> lf_head s < length (lf_store s)"
  by (simp add: lf_list_def)

lemma lf_list_chain:
  "lf_list s as \<Longrightarrow>
   chain (lf_next (lf_store s)) (length (lf_store s)) (lf_next (lf_store s) (lf_head s)) as"
  by (simp add: lf_list_def)

lemma lf_list_distinct: "lf_list s as \<Longrightarrow> distinct (lf_head s # as)"
  unfolding lf_list_def by (rule chain_distinct)

lemma lf_list_bound: "lf_list s as \<Longrightarrow> a \<in> set as \<Longrightarrow> a < length (lf_store s)"
  unfolding lf_list_def chain_def by (auto dest: path_bound)

lemma chain_cong:
  "chain nxt n p as \<Longrightarrow> (\<And>a. a \<in> set as \<Longrightarrow> nxt' a = nxt a) \<Longrightarrow> n \<le> n'
   \<Longrightarrow> chain nxt' n' p as"
  unfolding chain_def by (rule path_cong)

lemma mark_bit_idem: "mark_bit r \<Longrightarrow> r\<lparr>mark_bit := True\<rparr> = r"
  by (cases r) simp

lemma mark_link_marked: "is_marked (h ! a) \<Longrightarrow> mark_link h a = (False, h)"
  by (simp add: mark_link_eq set_next_def is_marked_def get_mark_def mark_bit_idem)

subsection \<open>pop\_front\<close>

lemma lf_pop_front_list:
  assumes l: "lf_list s (a # as)" and ok: "lf_sentinel_ok s"
    and um: "\<not> is_marked (lf_store s ! a)"
  shows "\<exists>s'. lf_pop_front s = Some (Inr s') \<and> lf_list s' as \<and> lf_head s' = lf_head s
           \<and> lf_sentinel_ok s' \<and> length (lf_store s') = length (lf_store s)
           \<and> (\<forall>b. b \<noteq> a \<longrightarrow> b \<noteq> lf_head s \<longrightarrow> lf_store s' ! b = lf_store s ! b)
           \<and> (\<forall>b. node_value (lf_store s' ! b) = node_value (lf_store s ! b))"
proof -
  let ?h = "lf_store s"
  let ?hd = "lf_head s"
  let ?h1 = "set_next ?h a ((node_next (?h ! a))\<lparr>mark_bit := True\<rparr>)"
  let ?h2 = "set_next ?h1 ?hd (assign (ptr (node_next (?h1 ! a))))"
  have hd: "?hd < length ?h" and a: "a < length ?h" and first: "lf_next ?h ?hd = Some a"
    and rest: "chain (lf_next ?h) (length ?h) (lf_next ?h a) as"
    using l by (auto simp: lf_list_def)
  have d: "distinct (?hd # a # as)" using l by (rule lf_list_distinct)
  have run: "lf_pop_front s = Some (Inr (s\<lparr>lf_store := ?h2\<rparr>))"
    using ok um first
    by (subst lf_pop_front.simps)
      (simp add: lf_sentinel_ok_def lf_next_def mark_link_eq assign_link_def Let_def)
  have nx: "lf_next ?h2 ?hd = lf_next ?h a"
    using hd a d by (simp add: lf_next_set_next assign_def) (simp add: lf_next_def nth_set_next)
  have "chain (lf_next ?h2) (length ?h2) (lf_next ?h a) as"
  proof (rule chain_cong [OF rest])
    fix b assume "b \<in> set as"
    then have "b \<noteq> a" "b \<noteq> ?hd" using d by auto
    then show "lf_next ?h2 b = lf_next ?h b" by (simp add: lf_next_set_next)
  qed simp
  then have "lf_list (s\<lparr>lf_store := ?h2\<rparr>) as"
    using hd nx by (simp add: lf_list_def)
  moreover have "lf_sentinel_ok (s\<lparr>lf_store := ?h2\<rparr>)"
    using hd by (simp add: lf_sentinel_ok_def is_marked_set_next assign_def)
  moreover have "\<forall>b. b \<noteq> a \<longrightarrow> b \<noteq> ?hd \<longrightarrow> ?h2 ! b = ?h ! b"
    by (simp add: nth_set_next)
  ultimately show ?thesis using run by simp
qed

lemma lf_pop_front_empty:
  "lf_list s [] \<Longrightarrow> lf_sentinel_ok s \<Longrightarrow> lf_pop_front s = Some (Inl Assertion_failed)"
  by (subst lf_pop_front.simps) (simp add: lf_list_def lf_sentinel_ok_def lf_next_def)


subsection \<open>push\_back\<close>

lemma lf_find_last_chain:
  "chain (lf_next h) n (Some pp) (pp # as) \<Longrightarrow>
   lf_find_last h (lf_next h pp) pp = Some (None, last (pp # as))"
proof (induction as arbitrary: pp)
  case Nil
  then show ?case by (subst lf_find_last.simps) simp
next
  case (Cons a as)
  then show ?case by (subst lf_find_last.simps) (simp add: lf_next_def)
qed

lemma lf_push_back_list:
  assumes l: "lf_list s as" and ok: "lf_sentinel_ok s"
    and um: "\<not> is_marked (lf_store s ! last (lf_head s # as))"
  shows "\<exists>s'. lf_push_back v s = Some (Inr s') \<and> lf_list s' (as @ [length (lf_store s)])
           \<and> lf_head s' = lf_head s \<and> lf_sentinel_ok s'
           \<and> length (lf_store s') = Suc (length (lf_store s))
           \<and> node_value (lf_store s' ! length (lf_store s)) = v
           \<and> \<not> is_marked (lf_store s' ! length (lf_store s))
           \<and> (\<forall>b < length (lf_store s). node_value (lf_store s' ! b) = node_value (lf_store s ! b))
           \<and> (\<forall>b < length (lf_store s). is_marked (lf_store s' ! b) = is_marked (lf_store s ! b))"
proof -
  let ?h = "lf_store s"
  let ?hd = "lf_head s"
  let ?n = "length ?h"
  let ?t = "last (?hd # as)"
  let ?h1 = "?h @ [\<lparr>node_value = v, node_next = null_ref\<rparr>]"
  let ?h2 = "set_next ?h1 ?t \<lparr>ptr = Some ?n, mark_bit = False\<rparr>"
  have ch: "chain (lf_next ?h) ?n (Some ?hd) (?hd # as)"
    using l by (simp add: lf_list_def)
  have d: "distinct (?hd # as)" using ch by (rule chain_distinct)
  have bound: "\<And>a. a \<in> set (?hd # as) \<Longrightarrow> a < ?n"
    using ch unfolding chain_def by (rule path_bound)
  have t: "?t < ?n" using bound [of ?t] last_in_set [of "?hd # as"] by simp
  have hdn: "?hd < ?n" using bound by simp
  have fl: "lf_find_last ?h (ptr (node_next (?h ! ?hd))) ?hd = Some (None, ?t)"
    using lf_find_last_chain [OF ch] by (simp add: lf_next_def)
  have tn: "lf_next ?h ?t = None"
    using chain_last_next [OF ch] by simp
  have cas: "cas_link ?h1 ?t None (Some ?n) = (True, ?h2)"
    using tn um t by (simp add: cas_link_eq lf_next_def nth_append is_marked_def)
  have run: "lf_push_back v s = Some (Inr (s\<lparr>lf_store := ?h2\<rparr>))"
    using ok fl cas
    by (subst lf_push_back.simps) (simp add: lf_sentinel_ok_def Let_def)
  have "chain (lf_next ?h2) (Suc ?n) (Some ?hd) ((?hd # as) @ [?n])"
  proof (rule chain_snoc [OF ch])
    show "lf_next ?h2 ?t = Some ?n" using t by (simp add: lf_next_set_next)
    show "lf_next ?h2 ?n = None"
      using t by (simp add: lf_next_set_next) (simp add: lf_next_def null_ref_def)
    show "lf_next ?h2 a = lf_next ?h a" if "a \<in> set (butlast (?hd # as))" for a
    proof -
      have "a \<noteq> ?t" using d that
        by (metis append_butlast_last_id distinct_append distinct.simps(2) disjoint_iff
            list.set_intros(1) list.distinct(1))
      moreover have "a < ?n" using that bound in_set_butlastD by metis
      ultimately show ?thesis by (simp add: lf_next_set_next) (simp add: lf_next_def nth_append)
    qed
  qed simp_all
  then have "lf_list (s\<lparr>lf_store := ?h2\<rparr>) (as @ [?n])"
    by (simp add: lf_list_def)
  moreover have "lf_sentinel_ok (s\<lparr>lf_store := ?h2\<rparr>)"
    using ok hdn by (simp add: lf_sentinel_ok_def is_marked_set_next)
      (simp add: is_marked_def nth_append)
  moreover have "node_value (?h2 ! ?n) = v" by simp
  moreover have "\<not> is_marked (?h2 ! ?n)"
    using t by (simp add: is_marked_set_next) (simp add: is_marked_def get_mark_def null_ref_def)
  moreover have "\<forall>b < ?n. node_value (?h2 ! b) = node_value (?h ! b)"
    by (simp add: nth_append)
  moreover have "\<forall>b < ?n. is_marked (?h2 ! b) = is_marked (?h ! b)"
    using um by (auto simp: is_marked_set_next) (simp_all add: is_marked_def nth_append)
  ultimately show ?thesis using run by simp
qed



lemma lf_find_last_list:
  "lf_list s as \<Longrightarrow>
   lf_find_last (lf_store s) (ptr (node_next (lf_store s ! lf_head s))) (lf_head s)
     = Some (None, last (lf_head s # as))"
  using lf_find_last_chain [of "lf_store s" "length (lf_store s)" "lf_head s" as]
  by (simp add: lf_list_def lf_next_def)

lemma lf_list_last:
  assumes "lf_list s as"
  shows "last (lf_head s # as) < length (lf_store s)"
    and "lf_next (lf_store s) (last (lf_head s # as)) = None"
proof -
  have ch: "chain (lf_next (lf_store s)) (length (lf_store s)) (Some (lf_head s)) (lf_head s # as)"
    using assms by (simp add: lf_list_def)
  have "last (lf_head s # as) \<in> set (lf_head s # as)" by (rule last_in_set) simp
  then show "last (lf_head s # as) < length (lf_store s)"
    using ch unfolding chain_def by (rule path_bound [rotated])
  show "lf_next (lf_store s) (last (lf_head s # as)) = None"
    using chain_last_next [OF ch] by simp
qed

lemma lf_list_grow:
  assumes "lf_list s as"
  shows "lf_list (s\<lparr>lf_store := lf_store s @ [x]\<rparr>) as"
proof -
  have ch: "chain (lf_next (lf_store s)) (length (lf_store s)) (Some (lf_head s)) (lf_head s # as)"
    using assms by (simp add: lf_list_def)
  have "chain (lf_next (lf_store s @ [x])) (length (lf_store s @ [x])) (Some (lf_head s)) (lf_head s # as)"
  proof (rule chain_cong [OF ch])
    fix a assume "a \<in> set (lf_head s # as)"
    then have "a < length (lf_store s)" using ch unfolding chain_def by (rule path_bound [rotated])
    then show "lf_next (lf_store s @ [x]) a = lf_next (lf_store s) a"
      by (simp add: lf_next_def nth_append)
  qed simp
  then show ?thesis by (simp add: lf_list_def)
qed


subsection \<open>remove\<close>

lemma lf_remove_loop_chain:
  fixes h :: "'a lf_node list"
  assumes "chain (lf_next h) (length h) (Some pp) (pp # mid @ rs)"
    and "\<forall>m\<in>set mid. is_marked (h ! m)"
    and "p = (case rs of [] \<Rightarrow> None | a # _ \<Rightarrow> Some a)"
  shows "\<exists>h' bs. lf_remove_loop val h p pp = Some h' \<and> length h' = length h
       \<and> chain (lf_next h') (length h') (Some pp) (pp # bs)
       \<and> set bs \<subseteq> set (mid @ rs)
       \<and> (\<forall>a. a \<notin> set (pp # mid @ rs) \<longrightarrow> h' ! a = h ! a)
       \<and> (\<forall>a. node_value (h' ! a) = node_value (h ! a))
       \<and> is_marked (h' ! pp) = is_marked (h ! pp)
       \<and> map (\<lambda>a. node_value (h' ! a)) (filter (\<lambda>a. \<not> is_marked (h' ! a)) bs)
         = filter (\<lambda>v. v \<noteq> val)
             (map (\<lambda>a. node_value (h ! a)) (filter (\<lambda>a. \<not> is_marked (h ! a)) rs))
       \<and> (mid = [] \<and> (\<forall>x\<in>set (pp # rs). \<not> is_marked (h ! x))
            \<longrightarrow> (\<forall>x\<in>set bs. \<not> is_marked (h' ! x)))"
  using assms
proof (induction rs arbitrary: h p pp mid)
  case Nil
  have "filter (\<lambda>a. \<not> is_marked (h ! a)) mid = []"
    using Nil.prems(2) by (simp add: filter_empty_conv)
  then show ?case
    using Nil.prems by (subst lf_remove_loop.simps) (auto intro!: exI [of _ mid])
next
  case (Cons a rs)
  let ?n = "length h"
  note ch = Cons.prems(1)
  have d: "distinct (pp # mid @ a # rs)" using ch by (rule chain_distinct)
  have bound: "\<And>x. x \<in> set (pp # mid @ a # rs) \<Longrightarrow> x < ?n"
    using ch unfolding chain_def by (rule path_bound)
  have a: "a < ?n" and ppn: "pp < ?n" using bound by simp_all
  have p: "p = Some a" using Cons.prems(3) by simp
  have pre: "path (lf_next h) ?n (Some pp) (pp # mid) (Some a)"
    and suf: "chain (lf_next h) ?n (Some a) (a # rs)"
    using ch chain_split [of "lf_next h" ?n "Some pp" "pp # mid" "a # rs"] by auto
  have rest: "chain (lf_next h) ?n (lf_next h a) rs" using suf by simp
  have p': "lf_next h a = (case rs of [] \<Rightarrow> None | b # _ \<Rightarrow> Some b)"
    using rest by (cases rs) auto
  have app: "a \<noteq> pp" using d by auto
  show ?case
  proof (cases "node_value (h ! a) = val")
    case False
    have "\<exists>h' bs. lf_remove_loop val h (lf_next h a) a = Some h' \<and> length h' = length h
       \<and> chain (lf_next h') (length h') (Some a) (a # bs)
       \<and> set bs \<subseteq> set ([] @ rs)
       \<and> (\<forall>x. x \<notin> set (a # [] @ rs) \<longrightarrow> h' ! x = h ! x)
       \<and> (\<forall>x. node_value (h' ! x) = node_value (h ! x))
       \<and> is_marked (h' ! a) = is_marked (h ! a)
       \<and> map (\<lambda>a. node_value (h' ! a)) (filter (\<lambda>a. \<not> is_marked (h' ! a)) bs)
         = filter (\<lambda>v. v \<noteq> val)
             (map (\<lambda>a. node_value (h ! a)) (filter (\<lambda>a. \<not> is_marked (h ! a)) rs))
       \<and> (([] :: addr list) = [] \<and> (\<forall>x\<in>set (a # rs). \<not> is_marked (h ! x))
            \<longrightarrow> (\<forall>x\<in>set bs. \<not> is_marked (h' ! x)))"
      by (rule Cons.IH) (use suf p' in simp_all)
    then obtain h' bs where r: "lf_remove_loop val h (lf_next h a) a = Some h'" "length h' = length h"
      "chain (lf_next h') (length h') (Some a) (a # bs)" "set bs \<subseteq> set rs"
      "\<And>x. x \<notin> set (a # rs) \<Longrightarrow> h' ! x = h ! x"
      "\<And>x. node_value (h' ! x) = node_value (h ! x)"
      "is_marked (h' ! a) = is_marked (h ! a)"
      "map (\<lambda>a. node_value (h' ! a)) (filter (\<lambda>a. \<not> is_marked (h' ! a)) bs)
         = filter (\<lambda>v. v \<noteq> val)
             (map (\<lambda>a. node_value (h ! a)) (filter (\<lambda>a. \<not> is_marked (h ! a)) rs))"
      "(\<forall>x\<in>set (a # rs). \<not> is_marked (h ! x)) \<Longrightarrow> (\<forall>x\<in>set bs. \<not> is_marked (h' ! x))"
      by (elim exE conjE) (rule that, simp_all)
    have same: "h' ! x = h ! x" if "x \<in> set (pp # mid)" for x
      using that d by (intro r(5)) auto
    have "path (lf_next h') (length h') (Some pp) (pp # mid) (Some a)"
      by (rule path_cong [OF pre]) (simp_all add: lf_next_def same r(2))
    then have c': "chain (lf_next h') (length h') (Some pp) (pp # mid @ a # bs)"
      using r(3) chain_split [of "lf_next h'" "length h'" "Some pp" "pp # mid" "a # bs"] by auto
    have midm: "filter (\<lambda>a. \<not> is_marked (h' ! a)) mid = []"
      using Cons.prems(2) same by (simp add: filter_empty_conv)
    have run: "lf_remove_loop val h p pp = Some h'"
      using False p r(1) by (subst lf_remove_loop.simps) (simp add: lf_next_def)
    show ?thesis
      apply (rule exI [of _ h'], rule exI [of _ "mid @ a # bs"])
      using run r(2) c' r(4) r(5) r(6) same [of pp] r(7) r(8) r(9) midm False
      by auto
  next
    case True
    let ?h1 = "set_next h a ((node_next (h ! a))\<lparr>mark_bit := True\<rparr>)"
    define u where "u \<longleftrightarrow> \<not> is_marked (h ! a) \<and> mid = [] \<and> \<not> is_marked (h ! pp)"
    define h2 where "h2 = (if u then set_next ?h1 pp \<lparr>ptr = lf_next h a, mark_bit = False\<rparr> else ?h1)"
    define mid2 where "mid2 = (if u then [] else mid @ [a])"
    have nxt_pp: "lf_next h pp = Some a \<longleftrightarrow> mid = []"
    proof (cases mid)
      case Nil
      then show ?thesis using pre by simp
    next
      case (Cons m ms)
      then have "lf_next h pp = Some m" "m \<noteq> a" using pre d by auto
      then show ?thesis using Cons by simp
    qed
    have h1pp: "?h1 ! pp = h ! pp" using app by (simp add: nth_set_next)
    have step: "(let (ok, h1) = mark_link h a;
                    h2 = (if ok then snd (cas_link h1 pp (Some a) (ptr (node_next (h1 ! a)))) else h1)
                in h2) = h2"
      using nxt_pp h1pp a
      by (auto simp: mark_link_eq cas_link_eq Let_def lf_next_def h2_def u_def nth_set_next)
    have len2: "length h2 = ?n" by (simp add: h2_def)
    have val2: "node_value (h2 ! x) = node_value (h ! x)" for x by (simp add: h2_def)
    have frame2: "h2 ! x = h ! x" if "x \<noteq> a" "x \<noteq> pp" for x
      using that by (simp add: nth_set_next h2_def)
    have nxt2: "lf_next h2 x = lf_next h x" if "x \<noteq> pp" for x
      using that by (simp add: lf_next_def nth_set_next h2_def)
    have nxt2pp: "lf_next h2 pp = (if u then lf_next h a else lf_next h pp)"
      using ppn app by (simp add: lf_next_def nth_set_next h2_def)
    have mark2a: "is_marked (h2 ! a)"
      using a app by (simp add: is_marked_set_next h2_def)
    have mark2pp: "is_marked (h2 ! pp) = is_marked (h ! pp)"
      using app ppn by (auto simp: is_marked_set_next h2_def u_def)
    have mark2: "is_marked (h2 ! x) = is_marked (h ! x)" if "x \<noteq> a" for x
      using that mark2pp frame2 [of x] by (cases "x = pp") auto
    have ch2: "chain (lf_next h2) (length h2) (Some pp) (pp # mid2 @ rs)"
    proof (cases u)
      case True
      have "chain (lf_next h2) (length h2) (lf_next h a) rs"
      proof (rule chain_cong [OF rest])
        fix x assume "x \<in> set rs"
        then have "x \<noteq> pp" using d by auto
        then show "lf_next h2 x = lf_next h x" by (rule nxt2)
      qed (simp add: len2)
      then show ?thesis using True ppn nxt2pp by (simp add: mid2_def len2)
    next
      case False
      have "chain (lf_next h2) (length h2) (Some pp) (pp # mid @ a # rs)"
      proof (rule chain_cong [OF ch])
        fix x assume "x \<in> set (pp # mid @ a # rs)"
        show "lf_next h2 x = lf_next h x"
          using False nxt2 [of x] nxt2pp by (cases "x = pp") auto
      qed (simp add: len2)
      then show ?thesis using False by (simp add: mid2_def)
    qed
    have mid2: "\<forall>m\<in>set mid2. is_marked (h2 ! m)"
    proof
      fix m assume m: "m \<in> set mid2"
      show "is_marked (h2 ! m)"
      proof (cases "m = a")
        case True
        then show ?thesis using mark2a by simp
      next
        case False
        then have "m \<in> set mid" using m by (auto simp: mid2_def split: if_splits)
        then show ?thesis using Cons.prems(2) mark2 [OF False] by simp
      qed
    qed
    have p2: "lf_next h2 a = (case rs of [] \<Rightarrow> None | b # _ \<Rightarrow> Some b)"
      using nxt2 [OF app] p' by simp
    have "\<exists>h' bs. lf_remove_loop val h2 (lf_next h2 a) pp = Some h' \<and> length h' = length h2
       \<and> chain (lf_next h') (length h') (Some pp) (pp # bs)
       \<and> set bs \<subseteq> set (mid2 @ rs)
       \<and> (\<forall>x. x \<notin> set (pp # mid2 @ rs) \<longrightarrow> h' ! x = h2 ! x)
       \<and> (\<forall>x. node_value (h' ! x) = node_value (h2 ! x))
       \<and> is_marked (h' ! pp) = is_marked (h2 ! pp)
       \<and> map (\<lambda>a. node_value (h' ! a)) (filter (\<lambda>a. \<not> is_marked (h' ! a)) bs)
         = filter (\<lambda>v. v \<noteq> val)
             (map (\<lambda>a. node_value (h2 ! a)) (filter (\<lambda>a. \<not> is_marked (h2 ! a)) rs))
       \<and> (mid2 = [] \<and> (\<forall>x\<in>set (pp # rs). \<not> is_marked (h2 ! x))
            \<longrightarrow> (\<forall>x\<in>set bs. \<not> is_marked (h' ! x)))"
      using ch2 mid2 p2 by (rule Cons.IH)
    then obtain h' bs where r: "lf_remove_loop val h2 (lf_next h2 a) pp = Some h'"
      "length h' = length h2"
      "chain (lf_next h') (length h') (Some pp) (pp # bs)" "set bs \<subseteq> set (mid2 @ rs)"
      "\<And>x. x \<notin> set (pp # mid2 @ rs) \<Longrightarrow> h' ! x = h2 ! x"
      "\<And>x. node_value (h' ! x) = node_value (h2 ! x)"
      "is_marked (h' ! pp) = is_marked (h2 ! pp)"
      "map (\<lambda>a. node_value (h' ! a)) (filter (\<lambda>a. \<not> is_marked (h' ! a)) bs)
         = filter (\<lambda>v. v \<noteq> val)
             (map (\<lambda>a. node_value (h2 ! a)) (filter (\<lambda>a. \<not> is_marked (h2 ! a)) rs))"
      "mid2 = [] \<Longrightarrow> (\<forall>x\<in>set (pp # rs). \<not> is_marked (h2 ! x)) \<Longrightarrow> (\<forall>x\<in>set bs. \<not> is_marked (h' ! x))"
      by (elim exE conjE) (rule that, simp_all)
    have "lf_remove_loop val h p pp
        = lf_remove_loop val h2 (ptr (node_next (h2 ! a))) pp"
    proof -
      obtain ok h1 where mk: "mark_link h a = (ok, h1)" by (cases "mark_link h a")
      then have "(if ok then snd (cas_link h1 pp (Some a) (ptr (node_next (h1 ! a)))) else h1) = h2"
        using step by simp
      then show ?thesis
        using True p mk by (subst lf_remove_loop.simps) (simp add: Let_def)
    qed
    then have run: "lf_remove_loop val h p pp = Some h'"
      using r(1) by (simp add: lf_next_def)
    have rs_same: "filter (\<lambda>a. \<not> is_marked (h2 ! a)) rs = filter (\<lambda>a. \<not> is_marked (h ! a)) rs"
    proof (rule filter_cong [OF refl])
      fix x assume "x \<in> set rs"
      then have "x \<noteq> a" using d by auto
      then show "(\<not> is_marked (h2 ! x)) = (\<not> is_marked (h ! x))" using mark2 by simp
    qed
    have logical: "map (\<lambda>a. node_value (h' ! a)) (filter (\<lambda>a. \<not> is_marked (h' ! a)) bs)
         = filter (\<lambda>v. v \<noteq> val)
             (map (\<lambda>a. node_value (h ! a)) (filter (\<lambda>a. \<not> is_marked (h ! a)) (a # rs)))"
      using r(8) True unfolding rs_same by (simp add: val2)
    have sub: "set bs \<subseteq> set (mid @ a # rs)"
      using r(4) by (auto simp: mid2_def split: if_splits)
    have frame: "h' ! x = h ! x" if "x \<notin> set (pp # mid @ a # rs)" for x
    proof -
      have "x \<notin> set (pp # mid2 @ rs)" using that by (auto simp: mid2_def split: if_splits)
      then have "h' ! x = h2 ! x" by (rule r(5))
      also have "\<dots> = h ! x" using that by (intro frame2) auto
      finally show ?thesis .
    qed
    have clean: "\<forall>x\<in>set bs. \<not> is_marked (h' ! x)"
      if "mid = []" and um: "\<forall>x\<in>set (pp # a # rs). \<not> is_marked (h ! x)"
    proof (rule r(9))
      show "mid2 = []" using that by (simp add: mid2_def u_def)
      show "\<forall>x\<in>set (pp # rs). \<not> is_marked (h2 ! x)"
      proof
        fix x assume x: "x \<in> set (pp # rs)"
        then have "x \<noteq> a" using d by auto
        then show "\<not> is_marked (h2 ! x)" using mark2 um x by auto
      qed
    qed
    show ?thesis
      apply (rule exI [of _ h'], rule exI [of _ bs])
      using run r(2) len2 r(3) sub frame r(6) val2 r(7) mark2pp logical clean
      by simp
  qed
qed


lemma lf_remove_list:
  assumes l: "lf_list s as"
  shows "\<exists>s' bs. lf_remove v s = Some s' \<and> lf_list s' bs \<and> set bs \<subseteq> set as
           \<and> lf_head s' = lf_head s \<and> lf_sentinel_ok s' = lf_sentinel_ok s
           \<and> lf_logical s' bs = filter (\<lambda>x. x \<noteq> v) (lf_logical s as)
           \<and> (lf_sentinel_ok s \<and> lf_unmarked s as = as \<longrightarrow> lf_unmarked s' bs = bs)"
proof -
  let ?h = "lf_store s"
  let ?hd = "lf_head s"
  have ch: "chain (lf_next ?h) (length ?h) (Some ?hd) (?hd # [] @ as)"
    using l by (simp add: lf_list_def)
  have p: "ptr (node_next (?h ! ?hd)) = (case as of [] \<Rightarrow> None | a # _ \<Rightarrow> Some a)"
    using l by (cases as) (auto simp: lf_list_def lf_next_def)
  have e: "\<forall>m\<in>set ([] :: addr list). is_marked (?h ! m)" by simp
  from lf_remove_loop_chain [OF ch e p, of v]
  obtain h' bs where r: "lf_remove_loop v ?h (ptr (node_next (?h ! ?hd))) ?hd = Some h'"
    "length h' = length ?h"
    "chain (lf_next h') (length h') (Some ?hd) (?hd # bs)" "set bs \<subseteq> set as"
    "is_marked (h' ! ?hd) = is_marked (?h ! ?hd)"
    "map (\<lambda>a. node_value (h' ! a)) (filter (\<lambda>a. \<not> is_marked (h' ! a)) bs)
         = filter (\<lambda>x. x \<noteq> v)
             (map (\<lambda>a. node_value (?h ! a)) (filter (\<lambda>a. \<not> is_marked (?h ! a)) as))"
    "(\<forall>x\<in>set (?hd # as). \<not> is_marked (?h ! x)) \<Longrightarrow> (\<forall>x\<in>set bs. \<not> is_marked (h' ! x))"
    by (elim exE conjE) (rule that, simp_all)
  have clean: "lf_unmarked (s\<lparr>lf_store := h'\<rparr>) bs = bs"
    if "lf_sentinel_ok s \<and> lf_unmarked s as = as"
  proof -
    have "\<forall>x\<in>set as. \<not> is_marked (?h ! x)"
      using that unfolding lf_unmarked_def by (metis (mono_tags, lifting) filter_id_conv)
    then have "\<forall>x\<in>set bs. \<not> is_marked (h' ! x)"
      using that r(7) by (simp add: lf_sentinel_ok_def)
    then show ?thesis by (simp add: lf_unmarked_def)
  qed
  show ?thesis
    apply (rule exI [of _ "s\<lparr>lf_store := h'\<rparr>"], rule exI [of _ bs])
    using r(1-6) clean
    by (simp add: lf_remove_def lf_list_def lf_sentinel_ok_def lf_logical_def lf_unmarked_def)
qed

lemma lf_remove_loop_absent:
  assumes "chain (lf_next h) n p rs"
    and "\<And>a. a \<in> set rs \<Longrightarrow> node_value (h ! a) = val \<Longrightarrow> is_marked (h ! a)"
  shows "lf_remove_loop val h p pp = Some h"
  using assms
proof (induction rs arbitrary: p pp)
  case Nil
  then show ?case by (subst lf_remove_loop.simps) simp
next
  case (Cons a rs)
  have p: "p = Some a" and rest: "chain (lf_next h) n (lf_next h a) rs"
    using Cons.prems(1) by simp_all
  have nx: "ptr (node_next (h ! a)) = lf_next h a" by (simp add: lf_next_def)
  have IH: "lf_remove_loop val h (ptr (node_next (h ! a))) pp' = Some h" for pp'
    unfolding nx using rest Cons.prems(2) by (intro Cons.IH) auto
  show ?case
  proof (cases "node_value (h ! a) = val")
    case True
    then have "is_marked (h ! a)" using Cons.prems(2) by simp
    then have "mark_link h a = (False, h)" by (rule mark_link_marked)
    then show ?thesis
      using True p IH by (subst lf_remove_loop.simps) simp
  next
    case False
    then show ?thesis
      using p IH by (subst lf_remove_loop.simps) simp
  qed
qed

lemma lf_remove_absent:
  assumes "lf_list s as" and "v \<notin> set (lf_logical s as)"
  shows "lf_remove v s = Some s"
proof -
  have "lf_remove_loop v (lf_store s) (ptr (node_next (lf_store s ! lf_head s))) (lf_head s)
      = Some (lf_store s)"
  proof (rule lf_remove_loop_absent)
    show "chain (lf_next (lf_store s)) (length (lf_store s))
        (ptr (node_next (lf_store s ! lf_head s))) as"
      using assms(1) by (simp add: lf_list_def lf_next_def)
    show "is_marked (lf_store s ! a)" if "a \<in> set as" "node_value (lf_store s ! a) = v" for a
      using that assms(2) by (auto simp: lf_logical_def lf_unmarked_def)
  qed
  then show ?thesis by (simp add: lf_remove_def)
qed

lemma lf_list_init: "lf_list (lf_init d) []"
  by (simp add: lf_list_def lf_init_def lf_next_def null_ref_def)

lemma lf_sentinel_ok_init: "lf_sentinel_ok (lf_init d)"
  by (simp add: lf_sentinel_ok_def lf_init_def is_marked_def get_mark_def null_ref_def)

section \<open>Both implementations against the sequential contract\<close>


lemma gl_seq_init: "gl_seq gl_init []"
  using gl_list_init by (auto simp: gl_seq_def gl_values_def)

lemma lf_seq_init: "lf_seq (lf_init d) []"
  using lf_list_init [of d] lf_sentinel_ok_init [of d]
  by (auto simp: lf_seq_def lf_unmarked_def lf_logical_def)

lemma gl_apply_seq:
  assumes "gl_seq s vs"
  shows "case seq_apply x vs of
           Inl e \<Rightarrow> gl_apply x s = Some (Inl e)
         | Inr (ob, vs') \<Rightarrow> (\<exists>s'. gl_apply x s = Some (Inr (ob, s')) \<and> gl_seq s' vs')"
proof -
  from assms obtain as where l: "gl_list s as" and vs: "vs = gl_values s as"
    by (auto simp: gl_seq_def)
  have len: "length vs = length as" and emp: "vs = [] \<longleftrightarrow> as = []"
    using vs by (simp_all add: gl_values_def)
  show ?thesis
  proof (cases x)
    case Size
    then show ?thesis using gl_size_list [OF l] assms len by simp
  next
    case Front
    then show ?thesis using gl_front_list [OF l] assms vs emp by simp
  next
    case Back
    then show ?thesis using gl_back_list [OF l] assms vs emp by simp
  next
    case Pop_front
    show ?thesis
    proof (cases as)
      case Nil
      then show ?thesis using l Pop_front emp by (simp add: gl_pop_front_empty)
    next
      case (Cons a bs)
      from gl_pop_front_list [OF l [unfolded Cons]]
      obtain s' where s': "gl_pop_front s = Inr s'" "gl_list s' bs" "gl_store s' = gl_store s"
        by blast
      then have "gl_seq s' (tl vs)"
        using vs Cons by (auto simp: gl_seq_def gl_values_def)
      then show ?thesis using s' Pop_front emp Cons by simp
    qed
  next
    case (Push_back v)
    from gl_push_back_list [OF l, of v]
    obtain s' where s': "gl_push_back v s = Inr s'" "gl_list s' (as @ [length (gl_store s)])"
      "gl_values s' (as @ [length (gl_store s)]) = gl_values s as @ [v]"
      by blast
    then have "gl_seq s' (vs @ [v])" using vs by (auto simp: gl_seq_def)
    then show ?thesis using s' Push_back by simp
  next
    case (Remove v)
    from gl_remove_list [OF l, of v]
    obtain s' where s': "gl_remove v s = Some s'"
      "gl_list s' (filter (\<lambda>a. node_value (gl_store s ! a) \<noteq> v) as)"
      "\<forall>a. node_value (gl_store s' ! a) = node_value (gl_store s ! a)"
      by blast
    have "gl_values s' (filter (\<lambda>a. node_value (gl_store s ! a) \<noteq> v) as)
        = filter (\<lambda>x. x \<noteq> v) vs"
      using s'(3) vs by (simp add: gl_values_def filter_map comp_def)
    then have "gl_seq s' (filter (\<lambda>x. x \<noteq> v) vs)" using s'(2) by (auto simp: gl_seq_def)
    then show ?thesis using s' Remove by simp
  next
    case Iterate
    then show ?thesis using gl_iterate_list [OF l] assms vs by simp
  qed
qed

lemma lf_apply_seq:
  assumes "lf_seq s vs" and "x \<noteq> Back"
  shows "case seq_apply x vs of
           Inl e \<Rightarrow> lf_apply x s = Some (Inl e)
         | Inr (ob, vs') \<Rightarrow> (\<exists>s'. lf_apply x s = Some (Inr (ob, s')) \<and> lf_seq s' vs')"
proof -
  from assms obtain as where l: "lf_list s as" and ok: "lf_sentinel_ok s"
    and um: "lf_unmarked s as = as" and lg: "lf_logical s as = vs"
    by (auto simp: lf_seq_def)
  have unm: "\<And>a. a \<in> set as \<Longrightarrow> \<not> is_marked (lf_store s ! a)"
    using um unfolding lf_unmarked_def by (metis (mono_tags, lifting) filter_id_conv)
  have vs: "vs = map (\<lambda>a. node_value (lf_store s ! a)) as"
    using lg um by (simp add: lf_logical_def)
  have len: "length vs = length as" and emp: "vs = [] \<longleftrightarrow> as = []"
    using vs by simp_all
  show ?thesis
  proof (cases x)
    case Size
    then show ?thesis using lf_size_list [OF l ok] assms len by simp
  next
    case Front
    show ?thesis
    proof (cases as)
      case Nil
      then show ?thesis using lf_front_list(1) [OF l ok] Front emp by simp
    next
      case (Cons a bs)
      then have "lf_front s = Some (Inr (node_value (lf_store s ! a)))"
        using lf_front_list(2) [OF l ok, of a bs] unm by simp
      then show ?thesis using Front Cons vs assms by simp
    qed
  next
    case Back
    then show ?thesis using assms by simp
  next
    case Pop_front
    show ?thesis
    proof (cases as)
      case Nil
      then show ?thesis using l ok Pop_front emp by (simp add: lf_pop_front_empty)
    next
      case (Cons a bs)
      have d: "distinct (lf_head s # a # bs)" using lf_list_distinct [OF l] Cons by simp
      from lf_pop_front_list [OF l [unfolded Cons] ok] unm Cons
      obtain s' where s': "lf_pop_front s = Some (Inr s')" "lf_list s' bs" "lf_sentinel_ok s'"
        "\<forall>b. b \<noteq> a \<longrightarrow> b \<noteq> lf_head s \<longrightarrow> lf_store s' ! b = lf_store s ! b"
        by auto
      have same: "lf_store s' ! b = lf_store s ! b" if "b \<in> set bs" for b
        using that d s'(4) by auto
      have "lf_unmarked s' bs = bs"
        using same unm Cons by (simp add: lf_unmarked_def)
      moreover have "lf_logical s' bs = tl vs"
        using same unm Cons vs by (simp add: lf_logical_def lf_unmarked_def)
      ultimately have "lf_seq s' (tl vs)" using s' by (auto simp: lf_seq_def)
      then show ?thesis using s' Pop_front emp Cons by simp
    qed
  next
    case (Push_back v)
    let ?n = "length (lf_store s)"
    have "\<not> is_marked (lf_store s ! last (lf_head s # as))"
      using unm ok by (cases "as = []") (auto simp: lf_sentinel_ok_def)
    from lf_push_back_list [OF l ok this, of v]
    obtain s' where s': "lf_push_back v s = Some (Inr s')" "lf_list s' (as @ [?n])"
      "lf_sentinel_ok s'" "node_value (lf_store s' ! ?n) = v" "\<not> is_marked (lf_store s' ! ?n)"
      "\<forall>b < ?n. node_value (lf_store s' ! b) = node_value (lf_store s ! b)"
      "\<forall>b < ?n. is_marked (lf_store s' ! b) = is_marked (lf_store s ! b)"
      by blast
    have b: "\<And>a. a \<in> set as \<Longrightarrow> a < ?n" using l by (rule lf_list_bound)
    have "lf_unmarked s' (as @ [?n]) = as @ [?n]"
      using s'(5,7) unm b by (simp add: lf_unmarked_def)
    moreover have "lf_logical s' (as @ [?n]) = vs @ [v]"
      using s'(4,5,6,7) unm b vs by (simp add: lf_logical_def lf_unmarked_def)
    ultimately have "lf_seq s' (vs @ [v])" using s' by (auto simp: lf_seq_def)
    then show ?thesis using s' Push_back by simp
  next
    case (Remove v)
    from lf_remove_list [OF l, of v]
    obtain s' bs where s': "lf_remove v s = Some s'" "lf_list s' bs"
      "lf_sentinel_ok s' = lf_sentinel_ok s"
      "lf_logical s' bs = filter (\<lambda>x. x \<noteq> v) (lf_logical s as)"
      "lf_sentinel_ok s \<and> lf_unmarked s as = as \<longrightarrow> lf_unmarked s' bs = bs"
      by blast
    then have "lf_seq s' (filter (\<lambda>x. x \<noteq> v) vs)"
      using ok um lg by (auto simp: lf_seq_def)
    then show ?thesis using s' Remove by simp
  next
    case Iterate
    have "lf_iterate s = Some vs"
    proof (cases as)
      case Nil
      then show ?thesis using lf_iterate_list [OF l] vs by simp
    next
      case (Cons a bs)
      then show ?thesis
        using lf_iterate_list [OF l] vs unm by (simp add: lf_logical_def lf_unmarked_def)
    qed
    then show ?thesis using Iterate assms by simp
  qed
qed

lemma gl_run_seq:
  "gl_seq s vs \<Longrightarrow>
   \<exists>r. gl_run xs s = Some (fst (seq_run xs vs), r) \<and>
       (case snd (seq_run xs vs) of
          Inl e \<Rightarrow> r = Inl e
        | Inr vs' \<Rightarrow> (\<exists>s'. r = Inr s' \<and> gl_seq s' vs'))"
proof (induction xs arbitrary: s vs)
  case Nil
  then show ?case by simp
next
  case (Cons x xs)
  show ?case
  proof (cases "seq_apply x vs")
    case (Inl e)
    then show ?thesis using gl_apply_seq [OF Cons.prems, of x] by simp
  next
    case (Inr p)
    obtain ob vs' where p: "p = (ob, vs')" by (cases p)
    with Inr gl_apply_seq [OF Cons.prems, of x]
    obtain s' where s': "gl_apply x s = Some (Inr (ob, s'))" "gl_seq s' vs'" by auto
    from Cons.IH [OF s'(2)] show ?thesis
      using Inr p s'(1) by (auto split: prod.splits sum.splits)
  qed
qed

lemma lf_run_seq:
  "lf_seq s vs \<Longrightarrow> Back \<notin> set xs \<Longrightarrow>
   \<exists>r. lf_run xs s = Some (fst (seq_run xs vs), r) \<and>
       (case snd (seq_run xs vs) of
          Inl e \<Rightarrow> r = Inl e
        | Inr vs' \<Rightarrow> (\<exists>s'. r = Inr s' \<and> lf_seq s' vs'))"
proof (induction xs arbitrary: s vs)
  case Nil
  then show ?case by simp
next
  case (Cons x xs)
  have x: "x \<noteq> Back" and xs: "Back \<notin> set xs" using Cons.prems(2) by auto
  show ?case
  proof (cases "seq_apply x vs")
    case (Inl e)
    then show ?thesis using lf_apply_seq [OF Cons.prems(1) x] by simp
  next
    case (Inr p)
    obtain ob vs' where p: "p = (ob, vs')" by (cases p)
    with Inr lf_apply_seq [OF Cons.prems(1) x]
    obtain s' where s': "lf_apply x s = Some (Inr (ob, s'))" "lf_seq s' vs'" by auto
    from Cons.IH [OF s'(2) xs] show ?thesis
      using Inr p s'(1) by (auto split: prod.splits sum.splits)
  qed
qed

lemma gl_outcome_seq: "gl_outcome xs = Some (seq_run xs [])"
proof -
  from gl_run_seq [OF gl_seq_init, of xs]
  obtain r where r: "gl_run xs gl_init = Some (fst (seq_run xs []), r)"
    "case snd (seq_run xs []) of Inl e \<Rightarrow> r = Inl e
     | Inr vs' \<Rightarrow> (\<exists>s'. r = Inr s' \<and> gl_seq s' vs')"
    by blast
  show ?thesis
  proof (cases "snd (seq_run xs [])")
    case (Inl e)
    then show ?thesis using r by (simp add: gl_outcome_def prod_eq_iff)
  next
    case (Inr vs')
    then obtain s' as where "r = Inr s'" "gl_list s' as" "gl_values s' as = vs'"
      using r(2) by (auto simp: gl_seq_def)
    then show ?thesis
      using r(1) Inr gl_contents_list [of s' as] by (simp add: gl_outcome_def prod_eq_iff)
  qed
qed

lemma lf_outcome_seq: "Back \<notin> set xs \<Longrightarrow> lf_outcome d xs = Some (seq_run xs [])"
proof -
  assume "Back \<notin> set xs"
  from lf_run_seq [OF lf_seq_init this, of d]
  obtain r where r: "lf_run xs (lf_init d) = Some (fst (seq_run xs []), r)"
    "case snd (seq_run xs []) of Inl e \<Rightarrow> r = Inl e
     | Inr vs' \<Rightarrow> (\<exists>s'. r = Inr s' \<and> lf_seq s' vs')"
    by blast
  show ?thesis
  proof (cases "snd (seq_run xs [])")
    case (Inl e)
    then show ?thesis using r by (simp add: lf_outcome_def prod_eq_iff)
  next
    case (Inr vs')
    then obtain s' as where "r = Inr s'" "lf_list s' as" "lf_logical s' as = vs'"
      using r(2) by (auto simp: lf_seq_def)
    then show ?thesis
      using r(1) Inr lf_contents_list [of s' as] by (simp add: lf_outcome_def prod_eq_iff)
  qed
qed






subsection \<open>How the state with a marked first node arises\<close>

text \<open>
  \<open>list_7_7\<close> is what two calls of \<open>push_back(7)\<close> build. In the interleaving that leads
  to \<open>marked_first\<close>, the steps of thread B are one complete call of \<open>remove(7)\<close> on the
  state in which thread A has marked node 1; thread A's compare-and-swap follows, and its
  last access changes nothing.
\<close>

lemma marked_first_reached:
  "lf_run [Push_back 7, Push_back 7] (lf_init 0) = Some ([Done, Done], Inr list_7_7) \<and>
   Option.bind (lf_remove 7 (list_7_7\<lparr>lf_store := snd (mark_link (lf_store list_7_7) 1)\<rparr>))
     (\<lambda>s. Some (s\<lparr>lf_store := snd (cas_link (lf_store s) 0 (Some 1)
                                       (ptr (node_next (lf_store s ! 1))))\<rparr>))
     = Some marked_first \<and>
   mark_link (lf_store marked_first) 2 = (False, lf_store marked_first)"
  by code_simp


subsection \<open>Retry loops in a sequential run\<close>

text \<open>
  The retry loops of \<open>front\<close>, \<open>pop_front\<close> and \<open>push_back\<close> wait for another thread to
  unlink a marked node. Run on their own, \<open>front\<close> and \<open>pop_front\<close> never return while
  the first node is marked, and \<open>push_back\<close> never returns while the last node is marked.
\<close>

lemma lf_front_spins:
  fixes s :: "'a lock_free_impl"
  assumes "lf_list s (a # as)" and "lf_sentinel_ok s" and "is_marked (lf_store s ! a)"
  shows "lf_front s = None"
proof (rule ccontr)
  assume "lf_front s \<noteq> None"
  then obtain r where r: "lf_front s = Some r" by auto
  define P where "P = (\<lambda>(s :: 'a lock_free_impl) (r :: error + 'a).
      \<forall>a as. lf_list s (a # as) \<longrightarrow> lf_sentinel_ok s \<longrightarrow> \<not> is_marked (lf_store s ! a))"
  have "P s r"
  proof (rule lf_front.raw_induct [where P = P, OF _ r], goal_cases)
    case (1 f s r)
    show ?case unfolding P_def
    proof (intro allI impI notI)
      fix a as
      assume l: "lf_list s (a # as)" and ok: "lf_sentinel_ok s" and m: "is_marked (lf_store s ! a)"
      have "ptr (node_next (lf_store s ! lf_head s)) = Some a"
        using l by (simp add: lf_list_def lf_next_def)
      then have "f s = Some r"
        using 1(2) ok m by (simp add: lf_sentinel_ok_def Let_def)
      then have "P s r" by (rule 1(1))
      then show False using l ok m unfolding P_def by blast
    qed
  qed
  then show False using assms unfolding P_def by blast
qed

lemma lf_pop_front_spins:
  fixes s :: "'a lock_free_impl"
  assumes "lf_list s (a # as)" and "lf_sentinel_ok s" and "is_marked (lf_store s ! a)"
  shows "lf_pop_front s = None"
proof (rule ccontr)
  assume "lf_pop_front s \<noteq> None"
  then obtain r where r: "lf_pop_front s = Some r" by auto
  define P where "P = (\<lambda>(s :: 'a lock_free_impl) (r :: error + 'a lock_free_impl).
      \<forall>a as. lf_list s (a # as) \<longrightarrow> lf_sentinel_ok s \<longrightarrow> \<not> is_marked (lf_store s ! a))"
  have "P s r"
  proof (rule lf_pop_front.raw_induct [where P = P, OF _ r], goal_cases)
    case (1 f s r)
    show ?case unfolding P_def
    proof (intro allI impI notI)
      fix a as
      assume l: "lf_list s (a # as)" and ok: "lf_sentinel_ok s" and m: "is_marked (lf_store s ! a)"
      have "ptr (node_next (lf_store s ! lf_head s)) = Some a"
        using l by (simp add: lf_list_def lf_next_def)
      then have "f s = Some r"
        using 1(2) ok m by (simp add: lf_sentinel_ok_def Let_def mark_link_marked)
      then have "P s r" by (rule 1(1))
      then show False using l ok m unfolding P_def by blast
    qed
  qed
  then show False using assms unfolding P_def by blast
qed

lemma lf_push_back_spins:
  fixes s :: "'a lock_free_impl"
  assumes "lf_list s as" and "lf_sentinel_ok s"
    and "is_marked (lf_store s ! last (lf_head s # as))"
  shows "lf_push_back v s = None"
proof (rule ccontr)
  assume "lf_push_back v s \<noteq> None"
  then obtain r where r: "lf_push_back v s = Some r" by auto
  define P where "P = (\<lambda>(v :: 'a) (s :: 'a lock_free_impl) (r :: error + 'a lock_free_impl).
      \<forall>as. lf_list s as \<longrightarrow> lf_sentinel_ok s \<longrightarrow> \<not> is_marked (lf_store s ! last (lf_head s # as)))"
  have "P v s r"
  proof (rule lf_push_back.raw_induct [where P = P, OF _ r], goal_cases)
    case (1 f v s r)
    show ?case unfolding P_def
    proof (intro allI impI notI)
      fix as
      let ?t = "last (lf_head s # as)"
      let ?h1 = "lf_store s @ [\<lparr>node_value = v, node_next = null_ref\<rparr>]"
      assume l: "lf_list s as" and ok: "lf_sentinel_ok s" and m: "is_marked (lf_store s ! ?t)"
      note fl = lf_find_last_list [OF l]
      note t = lf_list_last [OF l]
      have "cas_link ?h1 ?t None (Some (length (lf_store s))) = (False, ?h1)"
        using t(1) m by (simp add: cas_link_eq nth_append)
      then have "f v (s\<lparr>lf_store := ?h1\<rparr>) = Some r"
        using 1(2) ok fl by (simp add: lf_sentinel_ok_def Let_def)
      then have "P v (s\<lparr>lf_store := ?h1\<rparr>) r" by (rule 1(1))
      moreover have "lf_list (s\<lparr>lf_store := ?h1\<rparr>) as" using l by (rule lf_list_grow)
      moreover have "lf_sentinel_ok (s\<lparr>lf_store := ?h1\<rparr>)"
        using ok lf_list_head [OF l] by (simp add: lf_sentinel_ok_def nth_append)
      moreover have "is_marked (lf_store (s\<lparr>lf_store := ?h1\<rparr>) ! last (lf_head (s\<lparr>lf_store := ?h1\<rparr>) # as))"
        using m t(1) by (simp add: nth_append)
      ultimately show False unfolding P_def by blast
    qed
  qed
  then show False using assms unfolding P_def by blast
qed

subsection \<open>Destruction\<close>

lemma lf_destructor_sentinel:
  "lf_sentinel_ok s \<Longrightarrow> lf_destructor s = Some (Inl Assertion_failed)"
  unfolding lf_destructor_def
  by (subst release_chain.simps)
    (simp add: lf_sentinel_ok_def is_marked_def node_dtor_def)

section \<open>Interleaved executions\<close>

subsection \<open>A call run on its own is the member function\<close>

text \<open>
  Run without interference, the steps of a call compute exactly what the member
  function of the sequential model computes, for every store: the same result, the same
  failed assertion, or no result at all.
\<close>


lemma run_alone_Returned [simp]: "run_alone sn h Returned = Some (Inr h)"
  by (subst run_alone.simps) simp

lemma run_alone_Aborted [simp]: "run_alone sn h Aborted = Some (Inl Assertion_failed)"
  by (subst run_alone.simps) simp

lemma run_alone_step:
  "\<not> ended fr \<Longrightarrow> run_alone sn h fr = (case step sn h fr of (h', fr') \<Rightarrow> run_alone sn h' fr')"
  by (subst run_alone.simps) (cases fr; simp)

lemma option_eqI:
  fixes a b :: "'x option"
  assumes "\<And>y. a = Some y \<Longrightarrow> b = Some y" and "\<And>y. b = Some y \<Longrightarrow> a = Some y"
  shows "a = b"
  using assms by (cases a; cases b) auto

paragraph \<open>remove\<close>

lemma ra_Remove_read:
  "run_alone sn h (Remove_read v) = run_alone sn h (Remove_test v (ptr (node_next (h ! sn))) sn)"
  by (subst run_alone_step) simp_all

lemma ra_Remove_test_None: "run_alone sn h (Remove_test v None pp) = Some (Inr h)"
  by (subst run_alone_step) simp_all

lemma ra_Remove_test_skip:
  "node_value (h ! a) \<noteq> v \<Longrightarrow>
   run_alone sn h (Remove_test v (Some a) pp)
     = run_alone sn h (Remove_test v (ptr (node_next (h ! a))) a)"
  by (subst run_alone_step) simp_all

lemma ra_Remove_test_match:
  "node_value (h ! a) = v \<Longrightarrow>
   run_alone sn h (Remove_test v (Some a) pp) = run_alone sn h (Remove_mark v a pp)"
  by (subst run_alone_step) simp_all

lemma ra_Remove_mark:
  "mark_link h a = (ok, h1) \<Longrightarrow>
   run_alone sn h (Remove_mark v a pp)
     = run_alone sn h1 (if ok then Remove_load v a pp else Remove_advance v a pp)"
  by (subst run_alone_step) simp_all

lemma ra_Remove_load:
  "run_alone sn h (Remove_load v a pp)
     = run_alone sn h (Remove_cas v a pp (ptr (node_next (h ! a))))"
  by (subst run_alone_step) simp_all

lemma ra_Remove_cas:
  "run_alone sn h (Remove_cas v a pp x)
     = run_alone sn (snd (cas_link h pp (Some a) x)) (Remove_advance v a pp)"
  by (subst run_alone_step) simp_all

lemma ra_Remove_advance:
  "run_alone sn h (Remove_advance v a pp)
     = run_alone sn h (Remove_test v (ptr (node_next (h ! a))) pp)"
  by (subst run_alone_step) simp_all

lemma ra_Remove_iteration:
  assumes "node_value (h ! a) = v" and "mark_link h a = (ok, h1)"
    and "h2 = (if ok then snd (cas_link h1 pp (Some a) (ptr (node_next (h1 ! a)))) else h1)"
  shows "run_alone sn h (Remove_test v (Some a) pp)
     = run_alone sn h2 (Remove_test v (ptr (node_next (h2 ! a))) pp)"
proof -
  have "run_alone sn h (Remove_test v (Some a) pp) = run_alone sn h (Remove_mark v a pp)"
    using assms(1) by (rule ra_Remove_test_match)
  also have "\<dots> = run_alone sn h1 (if ok then Remove_load v a pp else Remove_advance v a pp)"
    using assms(2) by (rule ra_Remove_mark)
  also have "\<dots> = run_alone sn h2 (Remove_advance v a pp)"
  proof (cases ok)
    case True
    then show ?thesis using assms(3) by (simp add: ra_Remove_load ra_Remove_cas)
  next
    case False
    then show ?thesis using assms(3) by simp
  qed
  also have "\<dots> = run_alone sn h2 (Remove_test v (ptr (node_next (h2 ! a))) pp)"
    by (rule ra_Remove_advance)
  finally show ?thesis .
qed

lemma remove_big_small:
  fixes h :: "'a lf_node list"
  assumes "lf_remove_loop v h p pp = Some h'"
  shows "run_alone sn h (Remove_test v p pp) = Some (Inr h')"
proof -
  define P where "P = (\<lambda>(v :: 'a) (h :: 'a lf_node list) p pp (h' :: 'a lf_node list).
      run_alone sn h (Remove_test v p pp) = Some (Inr h'))"
  have "P v h p pp h'"
  proof (rule lf_remove_loop.raw_induct [where P = P, OF _ assms], goal_cases)
    case (1 f v h p pp h')
    show ?case unfolding P_def
    proof (cases p)
      case None
      then have "h' = h" using 1(2) by simp
      then show "run_alone sn h (Remove_test v p pp) = Some (Inr h')"
        using None by (simp add: ra_Remove_test_None)
    next
      case (Some a)
      show "run_alone sn h (Remove_test v p pp) = Some (Inr h')"
      proof (cases "node_value (h ! a) = v")
        case False
        then have "f v h (ptr (node_next (h ! a))) a = Some h'" using 1(2) Some by simp
        then have "run_alone sn h (Remove_test v (ptr (node_next (h ! a))) a) = Some (Inr h')"
          using 1(1) unfolding P_def by blast
        then show ?thesis using Some False by (simp add: ra_Remove_test_skip)
      next
        case True
        obtain ok h1 where mk: "mark_link h a = (ok, h1)" by (cases "mark_link h a")
        define h2 where "h2 = (if ok then snd (cas_link h1 pp (Some a) (ptr (node_next (h1 ! a)))) else h1)"
        have "f v h2 (ptr (node_next (h2 ! a))) pp = Some h'"
          using 1(2) Some True mk by (simp add: h2_def Let_def)
        then have "run_alone sn h2 (Remove_test v (ptr (node_next (h2 ! a))) pp) = Some (Inr h')"
          using 1(1) unfolding P_def by blast
        then show ?thesis
          using ra_Remove_iteration [OF True mk h2_def, of sn] Some by simp
      qed
    qed
  qed
  then show ?thesis unfolding P_def .
qed

lemma remove_small_big:
  fixes h :: "'a lf_node list"
  assumes "run_alone sn h (Remove_test v p pp) = Some r"
  shows "map_option Inr (lf_remove_loop v h p pp) = Some r"
proof -
  define Q where "Q = (\<lambda>(sn :: addr) (h :: 'a lf_node list) (fr :: 'a frame) (r :: error + 'a lf_node list).
      case fr of
           Remove_test v p pp \<Rightarrow> map_option Inr (lf_remove_loop v h p pp) = Some r
         | Remove_mark v a pp \<Rightarrow>
             node_value (h ! a) = v \<longrightarrow> map_option Inr (lf_remove_loop v h (Some a) pp) = Some r
         | Remove_load v a pp \<Rightarrow>
             (let h2 = snd (cas_link h pp (Some a) (ptr (node_next (h ! a))))
              in map_option Inr (lf_remove_loop v h2 (ptr (node_next (h2 ! a))) pp) = Some r)
         | Remove_cas v a pp x \<Rightarrow>
             (let h2 = snd (cas_link h pp (Some a) x)
              in map_option Inr (lf_remove_loop v h2 (ptr (node_next (h2 ! a))) pp) = Some r)
         | Remove_advance v a pp \<Rightarrow>
             map_option Inr (lf_remove_loop v h (ptr (node_next (h ! a))) pp) = Some r
         | Returned \<Rightarrow> r = Inr h
         | _ \<Rightarrow> True)"
  have "Q sn h (Remove_test v p pp) r"
  proof (rule run_alone.raw_induct [where P = Q, OF _ assms], goal_cases)
    case (1 f sn h fr r)
    note IH = 1(1) and body = 1(2)
    show ?case
    proof (cases fr)
      case (Remove_test v p pp)
      show ?thesis
      proof (cases p)
        case None
        then have "f sn h Returned = Some r" using body Remove_test by simp
        from IH [OF this] have "r = Inr h" by (simp add: Q_def)
        then show ?thesis using Remove_test None
          by (simp add: Q_def lf_remove_loop.simps [of v h None])
      next
        case (Some a)
        show ?thesis
        proof (cases "node_value (h ! a) = v")
          case True
          then have "f sn h (Remove_mark v a pp) = Some r" using body Remove_test Some by simp
          from IH [OF this] show ?thesis using Remove_test Some True by (simp add: Q_def)
        next
          case False
          then have "f sn h (Remove_test v (ptr (node_next (h ! a))) a) = Some r"
            using body Remove_test Some by simp
          from IH [OF this] show ?thesis using Remove_test Some False
            by (simp add: Q_def lf_remove_loop.simps [of v h "Some a"])
        qed
      qed
    next
      case (Remove_mark v a pp)
      obtain ok h1 where mk: "mark_link h a = (ok, h1)" by (cases "mark_link h a")
      show ?thesis
      proof (cases ok)
        case True
        then have "f sn h1 (Remove_load v a pp) = Some r" using body Remove_mark mk by simp
        from IH [OF this] show ?thesis using Remove_mark mk True
          by (simp add: Q_def Let_def lf_remove_loop.simps [of v h "Some a"])
      next
        case False
        then have "f sn h1 (Remove_advance v a pp) = Some r" using body Remove_mark mk by simp
        from IH [OF this] show ?thesis using Remove_mark mk False
          by (simp add: Q_def Let_def lf_remove_loop.simps [of v h "Some a"])
      qed
    next
      case (Remove_load v a pp)
      then have "f sn h (Remove_cas v a pp (ptr (node_next (h ! a)))) = Some r"
        using body by simp
      from IH [OF this] show ?thesis using Remove_load by (simp add: Q_def)
    next
      case (Remove_cas v a pp x)
      then have "f sn (snd (cas_link h pp (Some a) x)) (Remove_advance v a pp) = Some r"
        using body by simp
      from IH [OF this] show ?thesis using Remove_cas by (simp add: Q_def Let_def)
    next
      case (Remove_advance v a pp)
      then have "f sn h (Remove_test v (ptr (node_next (h ! a))) pp) = Some r"
        using body by simp
      from IH [OF this] show ?thesis using Remove_advance by (simp add: Q_def)
    next
      case Returned
      then show ?thesis using body by (simp add: Q_def)
    qed (simp_all add: Q_def)
  qed
  then show ?thesis by (simp add: Q_def)
qed

lemma run_alone_remove:
  fixes s :: "'a lock_free_impl"
  shows "run_alone (lf_head s) (lf_store s) (Remove_read v)
     = map_option (Inr \<circ> lf_store) (lf_remove v s)"
proof -
  let ?p = "ptr (node_next (lf_store s ! lf_head s))"
  have "run_alone (lf_head s) (lf_store s) (Remove_test v ?p (lf_head s))
      = map_option Inr (lf_remove_loop v (lf_store s) ?p (lf_head s))"
  proof (rule option_eqI)
    fix r assume "run_alone (lf_head s) (lf_store s) (Remove_test v ?p (lf_head s)) = Some r"
    then show "map_option Inr (lf_remove_loop v (lf_store s) ?p (lf_head s)) = Some r"
      by (rule remove_small_big)
  next
    fix r :: "error + 'a lf_node list"
    assume "map_option Inr (lf_remove_loop v (lf_store s) ?p (lf_head s)) = Some r"
    then obtain h' where "lf_remove_loop v (lf_store s) ?p (lf_head s) = Some h'" "r = Inr h'"
      by auto
    then show "run_alone (lf_head s) (lf_store s) (Remove_test v ?p (lf_head s)) = Some r"
      using remove_big_small [of v "lf_store s" ?p "lf_head s" h' "lf_head s"] by simp
  qed
  then show ?thesis
    by (simp add: ra_Remove_read lf_remove_def option.map_comp comp_def)
qed


paragraph \<open>pop\_front\<close>

lemma ra_Pop_assert:
  "run_alone sn h Pop_assert
     = (if is_marked (h ! sn) then Some (Inl Assertion_failed) else run_alone sn h Pop_read)"
  by (subst run_alone_step) simp_all

lemma ra_Pop_read:
  "run_alone sn h Pop_read
     = (case ptr (node_next (h ! sn)) of
          None \<Rightarrow> Some (Inl Assertion_failed)
        | Some cur \<Rightarrow> run_alone sn h (Pop_mark cur))"
  by (subst run_alone_step) (simp_all split: option.splits)

lemma ra_Pop_assign:
  "run_alone sn h (Pop_assign cur x) = Some (Inr (assign_link h sn x))"
  by (subst run_alone_step) simp_all

lemma ra_Pop_load:
  "run_alone sn h (Pop_load cur) = Some (Inr (assign_link h sn (ptr (node_next (h ! cur)))))"
  by (subst run_alone_step) (simp_all add: ra_Pop_assign)

lemma ra_Pop_mark:
  "mark_link h cur = (ok, h1) \<Longrightarrow>
   run_alone sn h (Pop_mark cur)
     = (if ok then Some (Inr (assign_link h1 sn (ptr (node_next (h1 ! cur)))))
        else run_alone sn h1 Pop_assert)"
  by (subst run_alone_step) (simp_all add: ra_Pop_load)

lemma pop_front_big_small:
  fixes s :: "'a lock_free_impl"
  assumes "lf_pop_front s = Some r"
  shows "run_alone (lf_head s) (lf_store s) Pop_assert = Some (map_sum id lf_store r)"
proof -
  define P where "P = (\<lambda>(s :: 'a lock_free_impl) (r :: error + 'a lock_free_impl).
      run_alone (lf_head s) (lf_store s) Pop_assert = Some (map_sum id lf_store r))"
  have "P s r"
  proof (rule lf_pop_front.raw_induct [where P = P, OF _ assms], goal_cases)
    case (1 f s r)
    note IH = 1(1) and body = 1(2)
    show ?case unfolding P_def
    proof (cases "is_marked (lf_store s ! lf_head s)")
      case True
      then show "run_alone (lf_head s) (lf_store s) Pop_assert = Some (map_sum id lf_store r)"
        using body by (auto simp: ra_Pop_assert Let_def)
    next
      case um: False
      show "run_alone (lf_head s) (lf_store s) Pop_assert = Some (map_sum id lf_store r)"
      proof (cases "ptr (node_next (lf_store s ! lf_head s))")
        case None
        then show ?thesis using body um by (auto simp: ra_Pop_assert ra_Pop_read Let_def)
      next
        case (Some cur)
        obtain ok h1 where mk: "mark_link (lf_store s) cur = (ok, h1)"
          by (cases "mark_link (lf_store s) cur")
        show ?thesis
        proof (cases ok)
          case True
          then show ?thesis
            using body um Some mk
            by (auto simp: ra_Pop_assert ra_Pop_read ra_Pop_mark [OF mk] Let_def)
        next
          case False
          then have "f (s\<lparr>lf_store := h1\<rparr>) = Some r"
            using body um Some mk by (simp add: Let_def)
          from IH [OF this] show ?thesis
            using um Some False
            by (simp add: P_def ra_Pop_assert [of _ "lf_store s"] ra_Pop_read [of _ "lf_store s"]
                ra_Pop_mark [OF mk])
        qed
      qed
    qed
  qed
  then show ?thesis unfolding P_def .
qed

lemma pop_front_small_big:
  fixes s :: "'a lock_free_impl"
  assumes "run_alone (lf_head s) (lf_store s) Pop_assert = Some r"
  shows "map_option (map_sum id lf_store) (lf_pop_front s) = Some r"
proof -
  define B where "B = (\<lambda>h. map_option (map_sum id lf_store) (lf_pop_front (s\<lparr>lf_store := h\<rparr>)))"
  define Q where "Q = (\<lambda>(sn :: addr) (h :: 'a lf_node list) (fr :: 'a frame) (r :: error + 'a lf_node list).
      sn = lf_head s \<longrightarrow>
      (case fr of
         Pop_assert \<Rightarrow> B h = Some r
       | Pop_read \<Rightarrow> \<not> is_marked (h ! sn) \<longrightarrow> B h = Some r
       | Pop_mark cur \<Rightarrow>
           \<not> is_marked (h ! sn) \<and> ptr (node_next (h ! sn)) = Some cur \<longrightarrow> B h = Some r
       | Pop_load cur \<Rightarrow> r = Inr (assign_link h sn (ptr (node_next (h ! cur))))
       | Pop_assign cur x \<Rightarrow> r = Inr (assign_link h sn x)
       | Returned \<Rightarrow> r = Inr h
       | Aborted \<Rightarrow> r = Inl Assertion_failed
       | _ \<Rightarrow> True))"
  have unfold: "B h = (if is_marked (h ! lf_head s) then Some (Inl Assertion_failed)
      else case ptr (node_next (h ! lf_head s)) of
        None \<Rightarrow> Some (Inl Assertion_failed)
      | Some cur \<Rightarrow>
          (case mark_link h cur of (ok, h1) \<Rightarrow>
             if \<not> ok then B h1
             else Some (Inr (assign_link h1 (lf_head s) (ptr (node_next (h1 ! cur)))))))" for h
    unfolding B_def
    by (subst lf_pop_front.simps) (simp add: Let_def split: option.splits prod.splits)
  have "Q (lf_head s) (lf_store s) Pop_assert r"
  proof (rule run_alone.raw_induct [where P = Q, OF _ assms], goal_cases)
    case (1 f sn h fr r)
    note IH = 1(1) and body = 1(2)
    show ?case
    proof (cases fr)
      case Pop_assert
      show ?thesis
      proof (cases "is_marked (h ! sn)")
        case True
        then have "f sn h Aborted = Some r" using body Pop_assert by simp
        from IH [OF this] show ?thesis using Pop_assert True by (auto simp: Q_def unfold)
      next
        case False
        then have "f sn h Pop_read = Some r" using body Pop_assert by simp
        from IH [OF this] show ?thesis using Pop_assert False by (auto simp: Q_def)
      qed
    next
      case Pop_read
      show ?thesis
      proof (cases "ptr (node_next (h ! sn))")
        case None
        then have "f sn h Aborted = Some r" using body Pop_read by simp
        from IH [OF this] show ?thesis using Pop_read None by (auto simp: Q_def unfold)
      next
        case (Some cur)
        then have "f sn h (Pop_mark cur) = Some r" using body Pop_read by simp
        from IH [OF this] show ?thesis using Pop_read Some by (auto simp: Q_def)
      qed
    next
      case (Pop_mark cur)
      obtain ok h1 where mk: "mark_link h cur = (ok, h1)" by (cases "mark_link h cur")
      show ?thesis
      proof (cases ok)
        case True
        then have "f sn h1 (Pop_load cur) = Some r" using body Pop_mark mk by simp
        from IH [OF this] show ?thesis using Pop_mark mk True by (auto simp: Q_def unfold [of h])
      next
        case False
        then have "f sn h1 Pop_assert = Some r" using body Pop_mark mk by simp
        from IH [OF this] show ?thesis using Pop_mark mk False by (auto simp: Q_def unfold [of h])
      qed
    next
      case (Pop_load cur)
      then have "f sn h (Pop_assign cur (ptr (node_next (h ! cur)))) = Some r" using body by simp
      from IH [OF this] show ?thesis using Pop_load by (auto simp: Q_def)
    next
      case (Pop_assign cur x)
      then have "f sn (assign_link h sn x) Returned = Some r" using body by simp
      from IH [OF this] show ?thesis using Pop_assign by (auto simp: Q_def)
    next
      case Returned
      then show ?thesis using body by (auto simp: Q_def)
    next
      case Aborted
      then show ?thesis using body by (auto simp: Q_def)
    qed (simp_all add: Q_def)
  qed
  then show ?thesis by (auto simp: Q_def B_def)
qed

lemma run_alone_pop_front:
  fixes s :: "'a lock_free_impl"
  shows "run_alone (lf_head s) (lf_store s) Pop_assert
     = map_option (map_sum id lf_store) (lf_pop_front s)"
proof (rule option_eqI)
  fix r assume "run_alone (lf_head s) (lf_store s) Pop_assert = Some r"
  then show "map_option (map_sum id lf_store) (lf_pop_front s) = Some r"
    by (rule pop_front_small_big)
next
  fix r :: "error + 'a lf_node list"
  assume "map_option (map_sum id lf_store) (lf_pop_front s) = Some r"
  then obtain r' where "lf_pop_front s = Some r'" "r = map_sum id lf_store r'" by auto
  then show "run_alone (lf_head s) (lf_store s) Pop_assert = Some r"
    using pop_front_big_small [of s r'] by simp
qed

paragraph \<open>push\_back\<close>

lemma ra_Push_assert:
  "run_alone sn h (Push_assert v)
     = (if is_marked (h ! sn) then Some (Inl Assertion_failed) else run_alone sn h (Push_read v))"
  by (subst run_alone_step) simp_all

lemma ra_Push_read:
  "run_alone sn h (Push_read v) = run_alone sn h (Push_walk v (ptr (node_next (h ! sn))) sn)"
  by (subst run_alone_step) simp_all

lemma ra_Push_walk_Some:
  "run_alone sn h (Push_walk v (Some a) pp) = run_alone sn h (Push_walk v (ptr (node_next (h ! a))) a)"
  by (subst run_alone_step) simp_all

lemma ra_Push_cas:
  "cas_link h pp None (Some n) = (ok, h2) \<Longrightarrow>
   run_alone sn h (Push_cas v pp n)
     = (if ok then Some (Inr h2) else run_alone sn h2 (Push_assert v))"
  by (subst run_alone_step) simp_all

lemma ra_Push_walk_None:
  "cas_link (h @ [\<lparr>node_value = v, node_next = null_ref\<rparr>]) pp None (Some (length h)) = (ok, h2) \<Longrightarrow>
   run_alone sn h (Push_walk v None pp)
     = (if ok then Some (Inr h2) else run_alone sn h2 (Push_assert v))"
  by (subst run_alone_step) (simp_all add: ra_Push_cas)

lemma find_last_walk:
  fixes h :: "'a lf_node list"
  assumes "lf_find_last h p pp = Some res"
  shows "fst res = None \<and>
         run_alone sn h (Push_walk v p pp) = run_alone sn h (Push_walk v None (snd res))"
proof -
  define P where "P = (\<lambda>(h :: 'a lf_node list) p pp (res :: addr option \<times> addr).
      fst res = None \<and>
      run_alone sn h (Push_walk v p pp) = run_alone sn h (Push_walk v None (snd res)))"
  have "P h p pp res"
  proof (rule lf_find_last.raw_induct [where P = P, OF _ assms], goal_cases)
    case (1 f h p pp res)
    show ?case
    proof (cases p)
      case None
      then show ?thesis using 1(2) by (auto simp: P_def)
    next
      case (Some a)
      then have "f h (ptr (node_next (h ! a))) a = Some res" using 1(2) by simp
      from 1(1) [OF this] show ?thesis using Some by (simp add: P_def ra_Push_walk_Some)
    qed
  qed
  then show ?thesis unfolding P_def .
qed

lemma push_back_big_small:
  fixes s :: "'a lock_free_impl"
  assumes "lf_push_back v s = Some r"
  shows "run_alone (lf_head s) (lf_store s) (Push_assert v) = Some (map_sum id lf_store r)"
proof -
  define P where "P = (\<lambda>(v :: 'a) (s :: 'a lock_free_impl) (r :: error + 'a lock_free_impl).
      run_alone (lf_head s) (lf_store s) (Push_assert v) = Some (map_sum id lf_store r))"
  have "P v s r"
  proof (rule lf_push_back.raw_induct [where P = P, OF _ assms], goal_cases)
    case (1 f v s r)
    note IH = 1(1) and body = 1(2)
    let ?h = "lf_store s"
    show ?case unfolding P_def
    proof (cases "is_marked (?h ! lf_head s)")
      case True
      then show "run_alone (lf_head s) ?h (Push_assert v) = Some (map_sum id lf_store r)"
        using body by (auto simp: ra_Push_assert Let_def)
    next
      case um: False
      show "run_alone (lf_head s) ?h (Push_assert v) = Some (map_sum id lf_store r)"
      proof (cases "lf_find_last ?h (ptr (node_next (?h ! lf_head s))) (lf_head s)")
        case None
        then show ?thesis using body um by (simp add: Let_def)
      next
        case (Some res)
        obtain p pp where res: "res = (p, pp)" by (cases res)
        from find_last_walk [OF Some, of "lf_head s" v] res
        have p: "p = None" and walk: "run_alone (lf_head s) ?h (Push_walk v (ptr (node_next (?h ! lf_head s))) (lf_head s))
            = run_alone (lf_head s) ?h (Push_walk v None pp)"
          by simp_all
        let ?h1 = "?h @ [\<lparr>node_value = v, node_next = null_ref\<rparr>]"
        obtain ok h2 where cas: "cas_link ?h1 pp None (Some (length ?h)) = (ok, h2)"
          by (cases "cas_link ?h1 pp None (Some (length ?h))")
        have start: "run_alone (lf_head s) ?h (Push_assert v)
            = (if ok then Some (Inr h2) else run_alone (lf_head s) h2 (Push_assert v))"
          using um walk by (simp add: ra_Push_assert ra_Push_read ra_Push_walk_None [OF cas])
        show ?thesis
        proof (cases ok)
          case True
          then have "r = Inr (s\<lparr>lf_store := h2\<rparr>)"
            using body um Some res p cas by (simp add: Let_def)
          then show ?thesis using start True by simp
        next
          case False
          then have "f v (s\<lparr>lf_store := h2\<rparr>) = Some r"
            using body um Some res p cas by (simp add: Let_def)
          from IH [OF this] show ?thesis using start False by (simp add: P_def)
        qed
      qed
    qed
  qed
  then show ?thesis unfolding P_def .
qed

lemma push_back_small_big:
  fixes s :: "'a lock_free_impl"
  assumes "run_alone (lf_head s) (lf_store s) (Push_assert v) = Some r"
  shows "map_option (map_sum id lf_store) (lf_push_back v s) = Some r"
proof -
  define B where "B = (\<lambda>v h. map_option (map_sum id lf_store) (lf_push_back v (s\<lparr>lf_store := h\<rparr>)))"
  define K where "K = (\<lambda>(v :: 'a) (h :: 'a lf_node list) (fl :: (addr option \<times> addr) option).
      case fl of
        None \<Rightarrow> None
      | Some (p, pp) \<Rightarrow>
          (case cas_link (h @ [\<lparr>node_value = v, node_next = null_ref\<rparr>]) pp p (Some (length h)) of
             (ok, h2) \<Rightarrow> if ok then Some (Inr h2) else B v h2))"
  define Q where "Q = (\<lambda>(sn :: addr) (h :: 'a lf_node list) (fr :: 'a frame) (r :: error + 'a lf_node list).
      sn = lf_head s \<longrightarrow>
      (case fr of
         Push_assert v \<Rightarrow> B v h = Some r
       | Push_read v \<Rightarrow> \<not> is_marked (h ! sn) \<longrightarrow> B v h = Some r
       | Push_walk v p pp \<Rightarrow> K v h (lf_find_last h p pp) = Some r
       | Push_cas v pp n \<Rightarrow>
           (case cas_link h pp None (Some n) of (ok, h2) \<Rightarrow>
              if ok then r = Inr h2 else B v h2 = Some r)
       | Returned \<Rightarrow> r = Inr h
       | Aborted \<Rightarrow> r = Inl Assertion_failed
       | _ \<Rightarrow> True))"
  have unfold: "B v h = (if is_marked (h ! lf_head s) then Some (Inl Assertion_failed)
      else K v h (lf_find_last h (ptr (node_next (h ! lf_head s))) (lf_head s)))" for v h
    unfolding B_def K_def
    by (subst lf_push_back.simps) (auto simp: Let_def split: option.splits prod.splits)
  have "Q (lf_head s) (lf_store s) (Push_assert v) r"
  proof (rule run_alone.raw_induct [where P = Q, OF _ assms], goal_cases)
    case (1 f sn h fr r)
    note IH = 1(1) and body = 1(2)
    show ?case
    proof (cases fr)
      case (Push_assert v)
      show ?thesis
      proof (cases "is_marked (h ! sn)")
        case True
        then have "f sn h Aborted = Some r" using body Push_assert by simp
        from IH [OF this] show ?thesis using Push_assert True by (auto simp: Q_def unfold)
      next
        case False
        then have "f sn h (Push_read v) = Some r" using body Push_assert by simp
        from IH [OF this] show ?thesis using Push_assert False by (auto simp: Q_def)
      qed
    next
      case (Push_read v)
      then have "f sn h (Push_walk v (ptr (node_next (h ! sn))) sn) = Some r" using body by simp
      from IH [OF this] show ?thesis using Push_read by (auto simp: Q_def unfold)
    next
      case (Push_walk v p pp)
      show ?thesis
      proof (cases p)
        case None
        then have "f sn (h @ [\<lparr>node_value = v, node_next = null_ref\<rparr>]) (Push_cas v pp (length h)) = Some r"
          using body Push_walk by simp
        from IH [OF this] show ?thesis using Push_walk None
          by (auto simp: Q_def K_def lf_find_last.simps [of h None])
      next
        case (Some a)
        then have "f sn h (Push_walk v (ptr (node_next (h ! a))) a) = Some r"
          using body Push_walk by simp
        from IH [OF this] show ?thesis using Push_walk Some
          by (auto simp: Q_def lf_find_last.simps [of h "Some a"])
      qed
    next
      case (Push_cas v pp n)
      obtain ok h2 where cas: "cas_link h pp None (Some n) = (ok, h2)"
        by (cases "cas_link h pp None (Some n)")
      show ?thesis
      proof (cases ok)
        case True
        then have "f sn h2 Returned = Some r" using body Push_cas cas by simp
        from IH [OF this] show ?thesis using Push_cas cas True by (auto simp: Q_def)
      next
        case False
        then have "f sn h2 (Push_assert v) = Some r" using body Push_cas cas by simp
        from IH [OF this] show ?thesis using Push_cas cas False by (auto simp: Q_def)
      qed
    next
      case Returned
      then show ?thesis using body by (auto simp: Q_def)
    next
      case Aborted
      then show ?thesis using body by (auto simp: Q_def)
    qed (simp_all add: Q_def)
  qed
  then show ?thesis by (auto simp: Q_def B_def)
qed

lemma run_alone_push_back:
  fixes s :: "'a lock_free_impl"
  shows "run_alone (lf_head s) (lf_store s) (Push_assert v)
     = map_option (map_sum id lf_store) (lf_push_back v s)"
proof (rule option_eqI)
  fix r assume "run_alone (lf_head s) (lf_store s) (Push_assert v) = Some r"
  then show "map_option (map_sum id lf_store) (lf_push_back v s) = Some r"
    by (rule push_back_small_big)
next
  fix r :: "error + 'a lf_node list"
  assume "map_option (map_sum id lf_store) (lf_push_back v s) = Some r"
  then obtain r' where "lf_push_back v s = Some r'" "r = map_sum id lf_store r'" by auto
  then show "run_alone (lf_head s) (lf_store s) (Push_assert v) = Some r"
    using push_back_big_small [of v s r'] by simp
qed

subsection \<open>Every interleaving keeps the list well-formed\<close>


lemma link_above_trans: "link_above a n p \<Longrightarrow> b \<le> a \<Longrightarrow> link_above b n p"
  by (auto simp: link_above_def split: option.splits)











lemma run_schedule_threads: "length (snd (run_schedule sn xs st)) = length (snd st)"
proof (induction xs arbitrary: st)
  case Nil
  then show ?case by simp
next
  case (Cons x xs)
  have "length (snd (act sn x st)) = length (snd st)"
    by (cases x; cases st) (auto split: prod.splits)
  then show ?case using Cons by simp
qed


subsection \<open>The interleaving that leaves a marked node first\<close>


lemma two_removes_reach_marked_first:
  "run_schedule 0 two_removes_schedule (lf_store list_7_7, [Remove_read 7, Remove_read 7])
     = (lf_store marked_first, [Returned, Returned])"
  by code_simp


section \<open>Claims about global\_lock\_impl\<close>

text \<open>
  C5. For \<open>global_lock_impl\<close>, \<open>try_pop_front()\<close> called on an empty list returns
  \<open>(false, T())\<close> and leaves the list as it is; called on the one-element list \<open>[a]\<close> it
  returns \<open>(true, a)\<close> and leaves the list empty (\<open>head_\<close> and \<open>tail_\<close> null).
\<close>

theorem gl_try_pop_front_empty_and_single:
  "(gl_head s = None \<and> gl_tail s = None \<longrightarrow> gl_try_pop_front d s = Inr ((False, d), s)) \<and>
   (gl_list t [n] \<and> gl_values t [n] = [a] \<longrightarrow>
      (\<exists>t'. gl_try_pop_front d t = Inr ((True, a), t') \<and> gl_head t' = None \<and> gl_tail t' = None))"
proof (intro conjI impI)
  assume "gl_head s = None \<and> gl_tail s = None"
  then show "gl_try_pop_front d s = Inr ((False, d), s)"
    by (simp add: gl_try_pop_front_def)
next
  assume t: "gl_list t [n] \<and> gl_values t [n] = [a]"
  then obtain t' where "gl_try_pop_front d t = Inr ((True, node_value (gl_store t ! n)), t')"
    "gl_list t' []"
    using gl_try_pop_front_list [of t n "[]" d] by blast
  then show "\<exists>t'. gl_try_pop_front d t = Inr ((True, a), t') \<and> gl_head t' = None \<and> gl_tail t' = None"
    using t by (auto simp: gl_values_def gl_list_empty)
qed

theorem gl_try_pop_front_empty_and_single_witness:
  "gl_head (gl_init :: nat global_lock_impl) = None \<and> gl_tail (gl_init :: nat global_lock_impl) = None \<and>
   gl_try_pop_front 0 (gl_init :: nat global_lock_impl) = Inr ((False, 0), gl_init) \<and>
   gl_list \<lparr>gl_store = [\<lparr>node_value = 7::nat, node_next = None\<rparr>], gl_head = Some 0, gl_tail = Some 0\<rparr> [0] \<and>
   gl_values \<lparr>gl_store = [\<lparr>node_value = 7::nat, node_next = None\<rparr>], gl_head = Some 0, gl_tail = Some 0\<rparr> [0] = [7] \<and>
   gl_try_pop_front 0 \<lparr>gl_store = [\<lparr>node_value = 7::nat, node_next = None\<rparr>], gl_head = Some 0, gl_tail = Some 0\<rparr>
     = Inr ((True, 7), \<lparr>gl_store = [\<lparr>node_value = 7::nat, node_next = None\<rparr>], gl_head = None, gl_tail = None\<rparr>)"
  using gl_try_pop_front_empty_and_single
    [of "gl_init :: nat global_lock_impl" 0
        "\<lparr>gl_store = [\<lparr>node_value = 7::nat, node_next = None\<rparr>], gl_head = Some 0, gl_tail = Some 0\<rparr>"
        0 7]
  by (simp add: gl_init_def gl_list_def gl_values_def gl_next_def last_ptr_def gl_try_pop_front_def)

text \<open>
  C7. For every finite sequence \<open>S\<close>: starting from an empty \<open>global_lock_impl\<close> list,
  calling \<open>push_back\<close> for each element of \<open>S\<close> in order succeeds, and then calling
  \<open>try_pop_front\<close> until it returns \<open>found = false\<close> terminates, yields exactly the elements
  of \<open>S\<close> in their original order, and leaves the list empty.
\<close>

theorem gl_push_back_drain_roundtrip:
  "\<exists>s s'. gl_push_all S gl_init = Inr s \<and> gl_drain d s [] = Some (Inr (S, s'))
      \<and> gl_head s' = None \<and> gl_tail s' = None"
proof -
  from gl_push_all_list [OF gl_list_init, of S]
  obtain s bs where s: "gl_push_all S gl_init = Inr s" "gl_list s bs" "gl_values s bs = S"
    by (auto simp: gl_values_def)
  from gl_drain_list [OF s(2), of d "[]"]
  obtain s' where "gl_drain d s [] = Some (Inr (gl_values s bs, s'))" "gl_list s' []"
    by auto
  then show ?thesis using s by (auto simp: gl_list_empty)
qed

text \<open>
  C10. The invariant of \<open>global_lock_impl\<close> (\<open>head_\<close> is null if and only if \<open>tail_\<close> is
  null; a non-null \<open>tail_\<close> is the last node reachable from \<open>head_\<close> and its \<open>next_\<close> is
  null) holds for the freshly constructed list, and from a state that satisfies it every
  operation (\<open>size\<close>, \<open>front\<close>, \<open>back\<close>, \<open>pop_front\<close>, \<open>push_back\<close>, \<open>remove\<close>,
  iteration, \<open>try_pop_front\<close>) returns and leaves a state that satisfies it; the only
  assertion failures are those of \<open>front\<close>, \<open>back\<close> and \<open>pop_front\<close> on the empty list.
\<close>

theorem gl_invariant_preserved:
  "gl_invariant gl_init [] \<and>
   (gl_invariant s as \<longrightarrow>
      (\<exists>r. gl_apply x s = Some r \<and>
         (case r of
            Inl e \<Rightarrow> as = [] \<and> x \<in> {Front, Back, Pop_front}
          | Inr (ob, s') \<Rightarrow> \<exists>bs. gl_invariant s' bs)) \<and>
      (\<exists>res s'. gl_try_pop_front d s = Inr (res, s') \<and> (\<exists>bs. gl_invariant s' bs)))"
proof (intro conjI impI)
  show "gl_invariant gl_init []"
    by (simp add: gl_invariant_list gl_list_init)
next
  assume "gl_invariant s as"
  then have l: "gl_list s as" by (simp add: gl_invariant_list)
  show "\<exists>r. gl_apply x s = Some r \<and>
         (case r of
            Inl e \<Rightarrow> as = [] \<and> x \<in> {Front, Back, Pop_front}
          | Inr (ob, s') \<Rightarrow> \<exists>bs. gl_invariant s' bs)"
  proof (cases x)
    case Size
    then show ?thesis using l gl_size_list [OF l] by (auto intro: gl_invariant_ex)
  next
    case Front
    then show ?thesis using l gl_front_list [OF l] by (auto intro: gl_invariant_ex)
  next
    case Back
    then show ?thesis using l gl_back_list [OF l] by (auto intro: gl_invariant_ex)
  next
    case Pop_front
    show ?thesis
    proof (cases as)
      case Nil
      then show ?thesis using l Pop_front by (simp add: gl_pop_front_empty)
    next
      case (Cons a bs)
      then show ?thesis
        using gl_pop_front_list [of s a bs] l Pop_front by (auto intro: gl_invariant_ex)
    qed
  next
    case (Push_back v)
    then show ?thesis using gl_push_back_list [OF l, of v] by (auto intro: gl_invariant_ex)
  next
    case (Remove v)
    then show ?thesis using gl_remove_list [OF l, of v] by (auto intro: gl_invariant_ex)
  next
    case Iterate
    then show ?thesis using l gl_iterate_list [OF l] by (auto intro: gl_invariant_ex)
  qed
  show "\<exists>res s'. gl_try_pop_front d s = Inr (res, s') \<and> (\<exists>bs. gl_invariant s' bs)"
  proof (cases as)
    case Nil
    then show ?thesis using l gl_try_pop_front_empty [of s d] by (auto intro: gl_invariant_ex)
  next
    case (Cons a bs)
    then show ?thesis
      using gl_try_pop_front_list [of s a bs d] l by (auto intro: gl_invariant_ex)
  qed
qed

theorem gl_invariant_preserved_witness:
  "gl_invariant gl_two [0, 1] \<and>
   gl_apply (Remove 2) gl_two
     = Some (Inr (Done, gl_two\<lparr>gl_store := (gl_store gl_two)[0 := \<lparr>node_value = 1, node_next = None\<rparr>],
                               gl_tail := Some 0\<rparr>)) \<and>
   gl_invariant (gl_two\<lparr>gl_store := (gl_store gl_two)[0 := \<lparr>node_value = 1, node_next = None\<rparr>],
                        gl_tail := Some 0\<rparr>) [0] \<and>
   gl_try_pop_front 0 gl_two = Inr ((True, 1), gl_two\<lparr>gl_head := Some 1\<rparr>) \<and>
   gl_invariant (gl_two\<lparr>gl_head := Some 1\<rparr>) [1]"
proof -
  have "gl_invariant gl_two [0, 1]"
    by (simp add: gl_invariant_def gl_two_def gl_next_def)
  moreover have "gl_apply (Remove 2) gl_two
     = Some (Inr (Done, gl_two\<lparr>gl_store := (gl_store gl_two)[0 := \<lparr>node_value = 1, node_next = None\<rparr>],
                               gl_tail := Some 0\<rparr>))"
    by code_simp
  moreover have "gl_invariant (gl_two\<lparr>gl_store := (gl_store gl_two)[0 := \<lparr>node_value = 1, node_next = None\<rparr>],
                        gl_tail := Some 0\<rparr>) [0]"
    by (simp add: gl_invariant_def gl_two_def gl_next_def)
  moreover have "gl_try_pop_front 0 gl_two = Inr ((True, 1), gl_two\<lparr>gl_head := Some 1\<rparr>)"
    by (simp add: gl_try_pop_front_def gl_two_def Let_def)
  moreover have "gl_invariant (gl_two\<lparr>gl_head := Some 1\<rparr>) [1]"
    by (simp add: gl_invariant_def gl_two_def gl_next_def)
  ultimately show ?thesis
    using gl_invariant_preserved [of gl_two "[0, 1]" "Remove 2" 0] by simp
qed

section \<open>Claims about lock\_free\_impl\<close>



text \<open>
  C2 says that \<open>size()\<close> counts only the nodes that are not marked. In the state
  \<open>marked_first\<close>, which two concurrent calls of \<open>remove(7)\<close> on \<open>[7, 7]\<close> reach, the
  only node behind the sentinel is marked, so no node counts, but
  \<open>size()\<close> returns 1: the \<open>if\<close> that tests the mark has an empty body, and \<open>ret++\<close> runs
  for every node (lemma \<open>lf_size_list\<close> gives the general result, the length of the
  chain).
\<close>

theorem lf_size_counts_marked_node:
  "run_schedule 0 two_removes_schedule (lf_store list_7_7, [Remove_read 7, Remove_read 7])
     = (lf_store marked_first, [Returned, Returned]) \<and>
   lf_list marked_first [2] \<and> lf_sentinel_ok marked_first \<and>
   is_marked (lf_store marked_first ! 2) \<and>
   length (lf_unmarked marked_first [2]) = 0 \<and>
   lf_size marked_first = Some (Inr 1)"
  by code_simp

text \<open>
  C3 says that iterating from \<open>begin()\<close> to \<open>end()\<close> yields only the values of nodes that
  are not marked, also when the first node after the sentinel is marked. In the state
  \<open>marked_first\<close>, which two concurrent calls of \<open>remove(7)\<close> on \<open>[7, 7]\<close> reach, that
  first node is marked and the logical contents are empty, but
  \<open>begin()\<close> is an iterator at that node and the iteration yields its value 7:
  \<open>operator++\<close> skips marked nodes, \<open>begin()\<close> does not (lemma \<open>lf_iterate_list\<close> gives
  the general result: the first node's value whatever its mark, then the values of the
  unmarked nodes after it).
\<close>

theorem lf_iterate_yields_marked_first_node:
  "run_schedule 0 two_removes_schedule (lf_store list_7_7, [Remove_read 7, Remove_read 7])
     = (lf_store marked_first, [Returned, Returned]) \<and>
   lf_list marked_first [2] \<and> lf_sentinel_ok marked_first \<and>
   is_marked (lf_store marked_first ! 2) \<and>
   lf_logical marked_first [2] = [] \<and>
   lf_begin marked_first = Some 2 \<and>
   lf_iterate marked_first = Some [7]"
  by code_simp

text \<open>
  C9 says that every node whose destructor runs has its link marked, the sentinel and
  the nodes still in the list at the destruction of the list included. Destroying the
  freshly constructed list releases the sentinel, whose link is not marked (and never is,
  C8): the assertion \<open>next_.get_mark()\<close> of \<open>node::~node\<close> fails.
\<close>

theorem lf_destructor_asserts:
  "lf_sentinel_ok (lf_init d) \<and> lf_destructor (lf_init d) = Some (Inl Assertion_failed)"
  unfolding lf_destructor_def
  by (subst release_chain.simps)
    (simp add: lf_sentinel_ok_def is_marked_def node_dtor_def lf_init_def null_ref_def get_mark_def)


text \<open>
  C6. For both implementations, \<open>remove(x)\<close> on a list with logical contents
  \<open>[a, x, b, x, c]\<close>, where \<open>a\<close>, \<open>b\<close> and \<open>c\<close> differ from \<open>x\<close>, returns and leaves the
  logical contents \<open>[a, b, c]\<close> in that order, and a second \<open>remove(x)\<close> returns the very
  same state. For the lock-free list this holds from every well-formed chain, with or
  without marked nodes linked into it.
\<close>

theorem remove_all_occurrences:
  assumes "a \<noteq> x" and "b \<noteq> x" and "c \<noteq> x"
    and "gl_list g as" and "gl_values g as = [a, x, b, x, c]"
    and "lf_list l bs" and "lf_logical l bs = [a, x, b, x, c]"
  shows "(\<exists>g' as'. gl_remove x g = Some g' \<and> gl_list g' as' \<and> gl_values g' as' = [a, b, c]
            \<and> gl_remove x g' = Some g') \<and>
         (\<exists>l' bs'. lf_remove x l = Some l' \<and> lf_list l' bs' \<and> lf_logical l' bs' = [a, b, c]
            \<and> lf_remove x l' = Some l')"
proof
  from gl_remove_list [OF assms(4), of x]
  obtain g' where g': "gl_remove x g = Some g'"
    "gl_list g' (filter (\<lambda>n. node_value (gl_store g ! n) \<noteq> x) as)"
    "\<forall>n. node_value (gl_store g' ! n) = node_value (gl_store g ! n)"
    by blast
  let ?as' = "filter (\<lambda>n. node_value (gl_store g ! n) \<noteq> x) as"
  have "gl_values g' ?as' = filter (\<lambda>v. v \<noteq> x) (gl_values g as)"
    using g'(3) by (simp add: gl_values_def filter_map comp_def)
  then have v: "gl_values g' ?as' = [a, b, c]" using assms(1,2,3,5) by simp
  then have "x \<notin> set (gl_values g' ?as')" using assms(1,2,3) by auto
  with g'(2) have "gl_remove x g' = Some g'" by (rule gl_remove_absent)
  with g' v show "\<exists>g' as'. gl_remove x g = Some g' \<and> gl_list g' as' \<and> gl_values g' as' = [a, b, c]
            \<and> gl_remove x g' = Some g'"
    by blast
next
  from lf_remove_list [OF assms(6), of x]
  obtain l' bs' where l': "lf_remove x l = Some l'" "lf_list l' bs'"
    "lf_logical l' bs' = filter (\<lambda>v. v \<noteq> x) (lf_logical l bs)"
    by blast
  then have v: "lf_logical l' bs' = [a, b, c]" using assms(1,2,3,7) by simp
  then have "x \<notin> set (lf_logical l' bs')" using assms(1,2,3) by auto
  with l'(2) have "lf_remove x l' = Some l'" by (rule lf_remove_absent)
  with l' v show "\<exists>l' bs'. lf_remove x l = Some l' \<and> lf_list l' bs' \<and> lf_logical l' bs' = [a, b, c]
            \<and> lf_remove x l' = Some l'"
    by blast
qed

theorem remove_all_occurrences_witness:
  "(1::nat) \<noteq> 9 \<and> (2::nat) \<noteq> 9 \<and> (3::nat) \<noteq> 9 \<and>
   gl_list gl_five [0, 1, 2, 3, 4] \<and> gl_values gl_five [0, 1, 2, 3, 4] = [1, 9, 2, 9, 3] \<and>
   lf_list lf_five [1, 2, 3, 4, 5] \<and> lf_logical lf_five [1, 2, 3, 4, 5] = [1, 9, 2, 9, 3] \<and>
   (\<exists>g' as'. gl_remove 9 gl_five = Some g' \<and> gl_list g' as' \<and> gl_values g' as' = [1, 2, 3]
      \<and> gl_remove 9 g' = Some g') \<and>
   (\<exists>l' bs'. lf_remove 9 lf_five = Some l' \<and> lf_list l' bs' \<and> lf_logical l' bs' = [1, 2, 3]
      \<and> lf_remove 9 l' = Some l') \<and>
   Option.bind (gl_remove 9 gl_five) gl_contents = Some [1, 2, 3] \<and>
   Option.bind (lf_remove 9 lf_five) lf_contents = Some [1, 2, 3]"
proof -
  have g: "gl_list gl_five [0, 1, 2, 3, 4]" "gl_values gl_five [0, 1, 2, 3, 4] = [1, 9, 2, 9, 3]"
    by code_simp+
  have l: "lf_list lf_five [1, 2, 3, 4, 5]" "lf_logical lf_five [1, 2, 3, 4, 5] = [1, 9, 2, 9, 3]"
    by code_simp+
  have n: "(1::nat) \<noteq> 9" "(2::nat) \<noteq> 9" "(3::nat) \<noteq> 9" by simp_all
  have c: "Option.bind (gl_remove 9 gl_five) gl_contents = Some [1, 2, 3]"
    "Option.bind (lf_remove 9 lf_five) lf_contents = Some [1, 2, 3]"
    by code_simp+
  from remove_all_occurrences [OF n g l] g l n c show ?thesis by blast
qed

text \<open>
  C1 says that every sequence of operations of the interface, \<open>back\<close> included, gives the
  same observations and final contents on both implementations when run sequentially
  from the constructed lists. \<open>push_back(1); back()\<close> separates them: \<open>global_lock_impl\<close>
  returns 1, \<open>lock_free_impl\<close> has no \<open>back\<close>.
\<close>

theorem back_breaks_equivalence:
  "gl_outcome [Push_back (1::nat), Back] = Some ([Done, Reference 1], Inr [1]) \<and>
   lf_outcome 0 [Push_back (1::nat), Back] = Some ([Done], Inl No_such_member) \<and>
   gl_outcome [Push_back (1::nat), Back] \<noteq> lf_outcome 0 [Push_back (1::nat), Back]"
  by code_simp

text \<open>
  C1, amended. For every sequence of the operations \<open>size\<close>, \<open>front\<close>, \<open>pop_front\<close>,
  \<open>push_back\<close>, \<open>remove\<close> and forward iteration, run sequentially from the constructed
  lists, both implementations return, with the same observations and the same error or
  final logical contents.
\<close>

theorem sequential_equivalence_without_back:
  "Back \<notin> set xs \<Longrightarrow> \<exists>r. gl_outcome xs = Some r \<and> lf_outcome d xs = Some r"
  by (simp add: gl_outcome_seq lf_outcome_seq)

theorem sequential_equivalence_without_back_witness:
  "Back \<notin> set [Push_back (1::nat), Push_back 2, Size, Front, Push_back 1, Iterate, Remove 1,
                Iterate, Size, Pop_front, Size, Pop_front, Front] \<and>
   gl_outcome [Push_back (1::nat), Push_back 2, Size, Front, Push_back 1, Iterate, Remove 1,
               Iterate, Size, Pop_front, Size, Pop_front, Front]
     = Some ([Done, Done, Count 2, Reference 1, Done, Sequence [1, 2, 1], Done,
              Sequence [2], Count 1, Done, Count 0], Inl Assertion_failed) \<and>
   lf_outcome 0 [Push_back (1::nat), Push_back 2, Size, Front, Push_back 1, Iterate, Remove 1,
               Iterate, Size, Pop_front, Size, Pop_front, Front]
     = Some ([Done, Done, Count 2, Reference 1, Done, Sequence [1, 2, 1], Done,
              Sequence [2], Count 1, Done, Count 0], Inl Assertion_failed)"
proof -
  let ?xs = "[Push_back (1::nat), Push_back 2, Size, Front, Push_back 1, Iterate, Remove 1,
               Iterate, Size, Pop_front, Size, Pop_front, Front]"
  have nb: "Back \<notin> set ?xs" by simp
  have g: "gl_outcome ?xs
     = Some ([Done, Done, Count 2, Reference 1, Done, Sequence [1, 2, 1], Done,
              Sequence [2], Count 1, Done, Count 0], Inl Assertion_failed)"
    by code_simp
  from sequential_equivalence_without_back [OF nb, of 0]
  have "lf_outcome 0 ?xs = gl_outcome ?xs" by auto
  with nb g show ?thesis by simp
qed




end
